theory Spec2Isabelle
  imports Complex_Main "HOL-Library.Log_Nat" "HOL-Library.Multiset"
begin

section \<open>JavaScript numbers, as far as the statistics code uses them\<close>

text \<open>
  The server keeps every statistic in a JavaScript Number, an IEEE 754 double. All
  numbers that \<open>calculateUserStats\<close> handles are non-negative: the six numeric fields
  of a stored match carry the validator \<open>min: 0\<close>, the accumulators start at \<open>0\<close> and
  are only added to, and the derived values are quotients and a product of these. A
  value is therefore a non-negative rational (the exact value of a finite double),
  \<open>Infinity\<close> or \<open>NaN\<close>; negative numbers and the sign of zero are not modelled (no
  operation of the aggregation tells \<open>-0\<close> from \<open>0\<close>, and \<open>0 + -0\<close> is \<open>0\<close>).
\<close>

datatype number = Fin rat | Infinity | NaN

text \<open>\<open>ilog2 q\<close> is the binary exponent of a positive rational: \<open>2^e \<le> q < 2^(e+1)\<close>.\<close>

definition ilog2 :: "rat \<Rightarrow> int" where
  "ilog2 q = (if 1 \<le> q then bitlen \<lfloor>q\<rfloor> - 1 else - bitlen (\<lceil>1 / q\<rceil> - 1))"

text \<open>Rounding to the nearest integer, a tie going to the even neighbour.\<close>

definition round_half_even :: "rat \<Rightarrow> int" where
  "round_half_even x =
     (let f = \<lfloor>x\<rfloor>; d = x - of_int f
      in if d < 1 / 2 then f
         else if 1 / 2 < d then f + 1
         else if even f then f else f + 1)"

text \<open>
  \<open>fl q\<close> is the double nearest to the non-negative rational \<open>q\<close>: 53 significant
  bits, ties to even, gradual underflow below \<open>2^-1022\<close>, and \<open>Infinity\<close> once the
  rounded value reaches \<open>2^1024\<close>. Every arithmetic operation of the language
  returns the exact result rounded this way. A negative argument does not occur.
\<close>

definition fl :: "rat \<Rightarrow> number" where
  "fl q =
     (if q \<le> 0 then Fin 0
      else let k = max (ilog2 q) (- 1022) - 52;
               r = of_int (round_half_even (q / 2 powi k)) * 2 powi k
           in if 2 ^ 1024 \<le> r then Infinity else Fin r)"

text \<open>\<open>a + b\<close>, \<open>a / b\<close>, \<open>a * b\<close> and \<open>a > b\<close> on non-negative operands.\<close>

fun jsadd :: "number \<Rightarrow> number \<Rightarrow> number" where
  "jsadd (Fin a) (Fin b) = fl (a + b)"
| "jsadd NaN _ = NaN"
| "jsadd _ NaN = NaN"
| "jsadd (Fin a) Infinity = Infinity"
| "jsadd Infinity (Fin b) = Infinity"
| "jsadd Infinity Infinity = Infinity"

fun jsdiv :: "number \<Rightarrow> number \<Rightarrow> number" where
  "jsdiv (Fin a) (Fin b) =
     (if b = 0 then (if a = 0 then NaN else Infinity) else fl (a / b))"
| "jsdiv NaN _ = NaN"
| "jsdiv _ NaN = NaN"
| "jsdiv (Fin a) Infinity = Fin 0"
| "jsdiv Infinity (Fin b) = Infinity"
| "jsdiv Infinity Infinity = NaN"

fun jsmul :: "number \<Rightarrow> number \<Rightarrow> number" where
  "jsmul (Fin a) (Fin b) = fl (a * b)"
| "jsmul NaN _ = NaN"
| "jsmul _ NaN = NaN"
| "jsmul (Fin a) Infinity = (if a = 0 then NaN else Infinity)"
| "jsmul Infinity (Fin b) = (if b = 0 then NaN else Infinity)"
| "jsmul Infinity Infinity = Infinity"

fun jsgt :: "number \<Rightarrow> number \<Rightarrow> bool" where
  "jsgt (Fin a) (Fin b) = (b < a)"
| "jsgt NaN _ = False"
| "jsgt _ NaN = False"
| "jsgt Infinity (Fin b) = True"
| "jsgt _ Infinity = False"

text \<open>
  \<open>x.toFixed(d)\<close> returns a string. For a finite \<open>x\<close> below \<open>10^21\<close> it is the decimal
  numeral of \<open>n / 10^d\<close>, where \<open>n\<close> is the integer nearest to \<open>x * 10^d\<close> taken on the
  exact value of \<open>x\<close>, the larger one on a tie; the string is kept as the pair
  \<open>Decimal n d\<close>. For any other \<open>x\<close> it is the ordinary string form of \<open>x\<close>
  (\<open>"1e+21"\<close>, \<open>"Infinity"\<close>, \<open>"NaN"\<close>), kept as \<open>ToString x\<close>. \<open>parseFloat\<close> reads a
  decimal numeral as the nearest double and reads the string form of a number back
  as that number.
\<close>

datatype numeral_string = Decimal int nat | ToString number

fun toFixed :: "number \<Rightarrow> nat \<Rightarrow> numeral_string" where
  "toFixed (Fin x) d =
     (if 10 ^ 21 \<le> x then ToString (Fin x)
      else Decimal \<lfloor>x * 10 ^ d + 1 / 2\<rfloor> d)"
| "toFixed x d = ToString x"

fun parseFloat :: "numeral_string \<Rightarrow> number" where
  "parseFloat (Decimal n d) = fl (of_int n / 10 ^ d)"
| "parseFloat (ToString x) = x"

text \<open>\<open>Number.MAX_VALUE\<close>, the largest finite double, and \<open>isFinite\<close>.\<close>

definition maxDouble :: rat where
  "maxDouble = (2 ^ 53 - 1) * 2 ^ 971"

fun isFinite :: "number \<Rightarrow> bool" where
  "isFinite (Fin _) = True"
| "isFinite _ = False"

text \<open>
  What an accumulator of the loop can hold: \<open>Infinity\<close>, or a finite double that is \<open>0\<close>
  or at least \<open>1\<close>.
\<close>

fun accOk :: "number \<Rightarrow> bool" where
  "accOk (Fin q) = ((q = 0 \<or> 1 \<le> q) \<and> q \<le> maxDouble)"
| "accOk Infinity = True"
| "accOk NaN = False"

section \<open>Matches and the account summary\<close>

datatype matchType = Ranked | Casual | Tournament | Practice

datatype outcome = Win | Loss | Draw

text \<open>
  A stored match (\<open>matchSchema\<close>). The numeric fields hold what the add-match route
  stored, \<open>parseInt\<close> of the submitted value, and what the validators \<open>min: 0\<close> let
  through: non-negative integers, of any size that a double reaches (\<open>2^53\<close> and
  \<open>2^1023\<close> are such values). A field that is \<open>Infinity\<close>, which \<open>parseInt\<close> returns for
  a numeral beyond the range of a double, is not modelled. \<open>mid\<close> is the document's
  \<open>_id\<close>, \<open>map_name\<close> its \<open>map\<close>. The owner (\<open>userId\<close>) is left out: every query of the
  routes below is scoped to the one account of the request, so the state of an account
  is its own matches and its own summary.
\<close>

record match =
  mid :: nat
  date :: string
  time :: string
  matchType :: matchType
  outcome :: outcome
  map_name :: string
  roundsWon :: nat
  roundsLost :: nat
  damage :: nat
  kills :: nat
  deaths :: nat
  assists :: nat

text \<open>
  The eleven statistics of a user document, which are also the object that
  \<open>calculateUserStats\<close> returns. Its keys \<open>kills\<close>, \<open>deaths\<close> and \<open>assists\<close> are
  named here after the variables they are filled from (\<open>totalKills\<close>, \<open>totalDeaths\<close>,
  \<open>totalAssists\<close>), the short names being the fields of a match.
\<close>

record summary =
  kdRatio :: number
  damagePerRound :: number
  winPercentage :: number
  killsPerRound :: number
  wins :: number
  totalKills :: number
  totalDeaths :: number
  totalAssists :: number
  totalGames :: number
  totalRounds :: number
  totalDamage :: number

text \<open>
  A field of a match as the number it is. A stored field is a double, so a natural
  number that is not one (the first is \<open>2^53 + 1\<close>) does not occur as a field.
\<close>

definition num :: "nat \<Rightarrow> number" where
  "num n = Fin (of_nat n)"

text \<open>The accumulators of the \<open>forEach\<close> loop, and one pass of its body.\<close>

record totals =
  accKills :: number
  accDeaths :: number
  accAssists :: number
  accDamage :: number
  accRounds :: number
  accWins :: number

definition accumulate :: "match \<Rightarrow> totals \<Rightarrow> totals" where
  "accumulate m t =
     \<lparr> accKills = jsadd (accKills t) (num (kills m)),
       accDeaths = jsadd (accDeaths t) (num (deaths m)),
       accAssists = jsadd (accAssists t) (num (assists m)),
       accDamage = jsadd (accDamage t) (num (damage m)),
       accRounds = jsadd (accRounds t) (jsadd (num (roundsWon m)) (num (roundsLost m))),
       accWins = (if outcome m = Win then jsadd (accWins t) (Fin 1) else accWins t) \<rparr>"

definition no_totals :: totals where
  "no_totals = \<lparr> accKills = Fin 0, accDeaths = Fin 0, accAssists = Fin 0,
                 accDamage = Fin 0, accRounds = Fin 0, accWins = Fin 0 \<rparr>"

text \<open>
  \<open>calculateUserStats\<close>, on the array that \<open>Match.find\<close> returned. The early return
  for the empty array comes first, then the loop and the derived values, in the
  order of the source.
\<close>

definition calculateUserStats :: "match list \<Rightarrow> summary" where
  "calculateUserStats matches =
     (if length matches = 0 then
        \<lparr> kdRatio = Fin 0, damagePerRound = Fin 0, winPercentage = Fin 0,
          killsPerRound = Fin 0, wins = Fin 0, totalKills = Fin 0, totalDeaths = Fin 0,
          totalAssists = Fin 0, totalGames = Fin 0, totalRounds = Fin 0,
          totalDamage = Fin 0 \<rparr>
      else
        let t = fold accumulate matches no_totals;
            games = num (length matches);
            kd = (if jsgt (accDeaths t) (Fin 0)
                  then parseFloat (toFixed (jsdiv (accKills t) (accDeaths t)) 2)
                  else accKills t);
            dpr = (if jsgt (accRounds t) (Fin 0)
                   then parseFloat (toFixed (jsdiv (accDamage t) (accRounds t)) 0)
                   else Fin 0);
            wp = parseFloat (toFixed (jsmul (jsdiv (accWins t) games) (Fin 100)) 1);
            kpr = (if jsgt (accRounds t) (Fin 0)
                   then parseFloat (toFixed (jsdiv (accKills t) (accRounds t)) 2)
                   else Fin 0)
        in \<lparr> kdRatio = kd, damagePerRound = dpr, winPercentage = wp,
             killsPerRound = kpr, wins = accWins t, totalKills = accKills t,
             totalDeaths = accDeaths t, totalAssists = accAssists t,
             totalGames = games, totalRounds = accRounds t,
             totalDamage = accDamage t \<rparr>)"

text \<open>
  The sums of the fields over a list of matches stay within the integers that a double
  holds exactly, and the number of won matches.
\<close>

definition exactTotals :: "match list \<Rightarrow> bool" where
  "exactTotals ms \<longleftrightarrow>
     sum_list (map kills ms) \<le> 2 ^ 53 \<and>
     sum_list (map deaths ms) \<le> 2 ^ 53 \<and>
     sum_list (map assists ms) \<le> 2 ^ 53 \<and>
     sum_list (map damage ms) \<le> 2 ^ 53 \<and>
     sum_list (map (\<lambda>m. roundsWon m + roundsLost m) ms) \<le> 2 ^ 53"

definition winCount :: "match list \<Rightarrow> nat" where
  "winCount ms = length (filter (\<lambda>m. outcome m = Win) ms)"

text \<open>
  The sum of a field over the matches as the loop takes it: from \<open>0\<close>, left to right, in
  double arithmetic.
\<close>

definition doubleSum :: "(match \<Rightarrow> number) \<Rightarrow> match list \<Rightarrow> number" where
  "doubleSum f ms = fold (\<lambda>m x. jsadd x (f m)) ms (Fin 0)"

section \<open>The routes that change an account's matches\<close>

text \<open>
  The state of one account: its documents in the \<open>matches\<close> collection, in the order
  \<open>Match.find\<close> returns them, and the statistics of its user document (\<open>None\<close> when
  the user document does not exist).
\<close>

record store =
  matches :: "match list"
  stats :: "summary option"

text \<open>
  Every call to the datastore is awaited inside the \<open>try\<close> block of its route and may
  throw. \<open>fails c\<close> says whether the call \<open>c\<close> throws during the request at hand; a
  call that throws leaves the datastore as it was.
\<close>

datatype dbcall =
  MatchSave | MatchFind | UserFindByIdAndUpdate | MatchFindOneAndDelete
  | UserFindById | MatchDeleteMany | UserSave

datatype response =
  Created match summary
  | Success summary
  | BadRequest string
  | NotFound string
  | InternalError string

text \<open>
  The body of \<open>POST /api/user/me/matches\<close>, of a request that has passed
  \<open>authenticateToken\<close>. A field that is absent is \<open>None\<close>. The numeric fields are taken
  to be sent as integers, so that the value the route compares with \<open>0\<close> and the value
  \<open>parseInt\<close> reads from it are the same; a body with a fractional number is not
  modelled.
\<close>

record body =
  bDate :: "string option"
  bTime :: "string option"
  bMatchType :: "string option"
  bOutcome :: "string option"
  bMap :: "string option"
  bRoundsWon :: "int option"
  bRoundsLost :: "int option"
  bDamage :: "int option"
  bKills :: "int option"
  bDeaths :: "int option"
  bAssists :: "int option"

text \<open>\<open>!x\<close> for a string field: absent or empty.\<close>

fun falsy :: "string option \<Rightarrow> bool" where
  "falsy None = True"
| "falsy (Some v) = (v = [])"

text \<open>The \<open>enum\<close> validators of the schema.\<close>

definition enumMatchType :: "string \<Rightarrow> matchType option" where
  "enumMatchType v =
     (if v = ''Ranked'' then Some Ranked
      else if v = ''Casual'' then Some Casual
      else if v = ''Tournament'' then Some Tournament
      else if v = ''Practice'' then Some Practice
      else None)"

definition enumOutcome :: "string \<Rightarrow> outcome option" where
  "enumOutcome v =
     (if v = ''Win'' then Some Win
      else if v = ''Loss'' then Some Loss
      else if v = ''Draw'' then Some Draw
      else None)"

text \<open>
  \<open>new Match({...})\<close> followed by the validation that \<open>match.save()\<close> runs first: the
  two enumerations and \<open>min: 0\<close> on the six numbers. \<open>None\<close> is the validation error
  that \<open>save\<close> throws. Whether the string sent as \<open>date\<close> casts to a \<open>Date\<close> is not
  decided here: the date is kept as the string, and a request whose date does not
  cast is one during which \<open>MatchSave\<close> fails.
\<close>

definition newMatch :: "nat \<Rightarrow> body \<Rightarrow> match option" where
  "newMatch i b =
     (case (enumMatchType (the (bMatchType b)), enumOutcome (the (bOutcome b))) of
        (Some mt, Some oc) \<Rightarrow>
          if 0 \<le> the (bRoundsWon b) \<and> 0 \<le> the (bRoundsLost b) \<and> 0 \<le> the (bDamage b)
             \<and> 0 \<le> the (bKills b) \<and> 0 \<le> the (bDeaths b) \<and> 0 \<le> the (bAssists b)
          then Some \<lparr> mid = i, date = the (bDate b), time = the (bTime b),
                      matchType = mt, outcome = oc, map_name = the (bMap b),
                      roundsWon = nat (the (bRoundsWon b)),
                      roundsLost = nat (the (bRoundsLost b)),
                      damage = nat (the (bDamage b)), kills = nat (the (bKills b)),
                      deaths = nat (the (bDeaths b)), assists = nat (the (bAssists b)) \<rparr>
          else None
      | _ \<Rightarrow> None)"

text \<open>
  \<open>User.findByIdAndUpdate(id, updatedStats)\<close>: the eleven statistics of the user
  document are replaced, if the document exists. Whether the datastore layer accepts
  every number in \<open>updatedStats\<close> is not decided here: a call that refuses one (a \<open>NaN\<close>)
  is a call that throws, and the request is one during which \<open>UserFindByIdAndUpdate\<close>
  fails.
\<close>

definition findByIdAndUpdate :: "summary \<Rightarrow> store \<Rightarrow> store" where
  "findByIdAndUpdate updatedStats s =
     s\<lparr>stats := (case stats s of None \<Rightarrow> None | Some _ \<Rightarrow> Some updatedStats)\<rparr>"

text \<open>
  \<open>POST /api/user/me/matches\<close>. \<open>i\<close> is the \<open>_id\<close> that the new document gets; the
  collection refuses a second document with the same \<open>_id\<close>. The fields read with
  \<open>the\<close> in \<open>newMatch\<close> are present, because the first check has passed.
\<close>

definition addMatch :: "(dbcall \<Rightarrow> bool) \<Rightarrow> nat \<Rightarrow> body \<Rightarrow> store \<Rightarrow> response \<times> store" where
  "addMatch fails i b s =
     (if falsy (bDate b) \<or> falsy (bTime b) \<or> falsy (bMatchType b) \<or> falsy (bOutcome b)
         \<or> falsy (bMap b) \<or> bRoundsWon b = None \<or> bRoundsLost b = None
         \<or> bDamage b = None \<or> bKills b = None \<or> bDeaths b = None \<or> bAssists b = None
      then (BadRequest ''All fields are required'', s)
      else if the (bRoundsWon b) < 0 \<or> the (bRoundsLost b) < 0
      then (BadRequest ''Rounds won and lost cannot be negative'', s)
      else
        (case newMatch i b of
           None \<Rightarrow> (InternalError ''Error adding match'', s)
         | Some m \<Rightarrow>
             if fails MatchSave \<or> i \<in> mid ` set (matches s)
             then (InternalError ''Error adding match'', s)
             else
               let s1 = s\<lparr>matches := matches s @ [m]\<rparr> in
               if fails MatchFind then (InternalError ''Error adding match'', s1)
               else
                 let updatedStats = calculateUserStats (matches s1) in
                 if fails UserFindByIdAndUpdate
                 then (InternalError ''Error adding match'', s1)
                 else (Created m updatedStats, findByIdAndUpdate updatedStats s1)))"

text \<open>
  \<open>DELETE /api/user/me/matches/:id\<close>. \<open>findOneAndDelete\<close> removes the first document
  with the given \<open>_id\<close> and returns it, or returns \<open>null\<close>.
\<close>

definition deleteMatch :: "(dbcall \<Rightarrow> bool) \<Rightarrow> nat \<Rightarrow> store \<Rightarrow> response \<times> store" where
  "deleteMatch fails i s =
     (if fails MatchFindOneAndDelete then (InternalError ''Error deleting match'', s)
      else
        (case find (\<lambda>m. mid m = i) (matches s) of
           None \<Rightarrow> (NotFound ''Match not found'', s)
         | Some m \<Rightarrow>
             let s1 = s\<lparr>matches := remove1 m (matches s)\<rparr> in
             if fails MatchFind then (InternalError ''Error deleting match'', s1)
             else
               let updatedStats = calculateUserStats (matches s1) in
               if fails UserFindByIdAndUpdate
               then (InternalError ''Error deleting match'', s1)
               else (Success updatedStats, findByIdAndUpdate updatedStats s1)))"

text \<open>The eleven assignments of the reset route to the user document it has loaded.\<close>

definition resetUser :: "summary \<Rightarrow> summary" where
  "resetUser user =
     user\<lparr> kdRatio := Fin 0, damagePerRound := Fin 0, winPercentage := Fin 0,
           killsPerRound := Fin 0, wins := Fin 0, totalKills := Fin 0,
           totalDeaths := Fin 0, totalAssists := Fin 0, totalGames := Fin 0,
           totalRounds := Fin 0, totalDamage := Fin 0 \<rparr>"

text \<open>The \<open>stats\<close> object that the reset route writes into its answer.\<close>

definition resetAnswer :: summary where
  "resetAnswer =
     \<lparr> kdRatio = Fin 0, damagePerRound = Fin 0, winPercentage = Fin 0,
       killsPerRound = Fin 0, wins = Fin 0, totalKills = Fin 0, totalDeaths = Fin 0,
       totalAssists = Fin 0, totalGames = Fin 0, totalRounds = Fin 0,
       totalDamage = Fin 0 \<rparr>"

text \<open>\<open>DELETE /api/user/me/stats\<close>.\<close>

definition resetStats :: "(dbcall \<Rightarrow> bool) \<Rightarrow> store \<Rightarrow> response \<times> store" where
  "resetStats fails s =
     (if fails UserFindById then (InternalError ''Error resetting stats'', s)
      else
        (case stats s of
           None \<Rightarrow> (NotFound ''User not found'', s)
         | Some user \<Rightarrow>
             if fails MatchDeleteMany then (InternalError ''Error resetting stats'', s)
             else
               let s1 = s\<lparr>matches := []\<rparr> in
               if fails UserSave then (InternalError ''Error resetting stats'', s1)
               else (Success resetAnswer, s1\<lparr>stats := Some (resetUser user)\<rparr>)))"

text \<open>One request of an account, and the state it leaves.\<close>

datatype request = AddMatch nat body | DeleteMatch nat | ResetStats

fun handle :: "(dbcall \<Rightarrow> bool) \<Rightarrow> request \<Rightarrow> store \<Rightarrow> response \<times> store" where
  "handle fails (AddMatch i b) s = addMatch fails i b s"
| "handle fails (DeleteMatch i) s = deleteMatch fails i s"
| "handle fails ResetStats s = resetStats fails s"

text \<open>
  The account as \<open>POST /api/signup\<close> creates it: no match, and the schema's defaults
  in the user document.
\<close>

definition signedUp :: store where
  "signedUp =
     \<lparr> matches = [],
       stats = Some \<lparr> kdRatio = Fin 0, damagePerRound = Fin 0, winPercentage = Fin 0,
                      killsPerRound = Fin 0, wins = Fin 0, totalKills = Fin 0,
                      totalDeaths = Fin 0, totalAssists = Fin 0, totalGames = Fin 0,
                      totalRounds = Fin 0, totalDamage = Fin 0 \<rparr> \<rparr>"

text \<open>
  The states an account goes through: any request may follow any state, with any
  of its datastore calls failing.
\<close>

inductive reachable :: "store \<Rightarrow> bool" where
  start: "reachable signedUp"
| request: "reachable s \<Longrightarrow> reachable (snd (handle fails r s))"

text \<open>The answer 500 of a \<open>catch\<close> block.\<close>

fun internalError :: "response \<Rightarrow> bool" where
  "internalError (InternalError _) = True"
| "internalError _ = False"

text \<open>
  The answers 201 and 200 that carry statistics.
\<close>

fun success :: "response \<Rightarrow> bool" where
  "success (Created _ _) = True"
| "success (Success _) = True"
| "success _ = False"

text \<open>
  The states in which the summary has kept up with the matches: the account as
  created, the state after any request answered with success, from whatever reachable
  state, and the state after any request that left the match set as it was. What is
  left out are the states after a request that changed the match set and was
  answered with an internal error, until the next request answered with success.
\<close>

inductive upToDate :: "store \<Rightarrow> bool" where
  fresh: "upToDate signedUp"
| answered:
    "reachable s \<Longrightarrow> success (fst (handle fails r s)) \<Longrightarrow> upToDate (snd (handle fails r s))"
| untouched:
    "upToDate s \<Longrightarrow> matches (snd (handle fails r s)) = matches s
      \<Longrightarrow> upToDate (snd (handle fails r s))"

section \<open>Sample matches and requests\<close>

text \<open>A match with the given outcome and numbers; the aggregation reads nothing else.\<close>

definition played :: "outcome \<Rightarrow> nat \<Rightarrow> nat \<Rightarrow> nat \<Rightarrow> nat \<Rightarrow> nat \<Rightarrow> nat \<Rightarrow> match" where
  "played oc rw rl dmg k d a =
     \<lparr> mid = 0, date = ''2024-05-01'', time = ''18:30'', matchType = Ranked, outcome = oc,
       map_name = ''Ascent'', roundsWon = rw, roundsLost = rl, damage = dmg, kills = k,
       deaths = d, assists = a \<rparr>"

text \<open>
  The two records of the specification's example, as any two matches with the seven
  fields set, and as a list of two sample matches.
\<close>

definition specRecord1 :: "match \<Rightarrow> match" where
  "specRecord1 m = m\<lparr> outcome := Win, roundsWon := 7, roundsLost := 6, damage := 3200,
                       kills := 15, deaths := 10, assists := 5 \<rparr>"

definition specRecord2 :: "match \<Rightarrow> match" where
  "specRecord2 m = m\<lparr> outcome := Loss, roundsWon := 5, roundsLost := 7, damage := 2400,
                       kills := 8, deaths := 12, assists := 3 \<rparr>"

definition specExample :: "match list" where
  "specExample = [played Win 7 6 3200 15 10 5, played Loss 5 7 2400 8 12 3]"

text \<open>
  Matches whose kills reach the limits of a double: \<open>2^53\<close>, beyond which not every
  integer is a double, and \<open>2^1023\<close>, half of the first power of two that is not a
  finite double. A match without deaths.
\<close>

definition hugeKills :: match where
  "hugeKills = played Draw 0 0 0 (2 ^ 53) 0 0"

definition oneKill :: match where
  "oneKill = played Draw 0 0 0 1 0 0"

definition overflowKills :: match where
  "overflowKills = played Draw 0 0 0 (2 ^ 1023) 0 0"

definition overflowBoth :: match where
  "overflowBoth = played Draw 0 0 0 (2 ^ 1023) (2 ^ 1023) 0"

definition fiveKills :: match where
  "fiveKills = played Win 13 5 900 5 0 2"

text \<open>
  A match of 10 rounds, 100 damage and 7 kills.
\<close>

definition tenRounds :: match where
  "tenRounds = played Win 6 4 100 7 3 2"

text \<open>
  A complete request body, the match it creates under the \<open>_id\<close> 7, a request during
  which \<open>User.findByIdAndUpdate\<close> throws and one during which nothing throws, and the
  account after the sample match has been added during the former.
\<close>

definition sampleBody :: body where
  "sampleBody =
     \<lparr> bDate = Some ''2024-05-01'', bTime = Some ''18:30'', bMatchType = Some ''Ranked'',
       bOutcome = Some ''Win'', bMap = Some ''Ascent'', bRoundsWon = Some 13,
       bRoundsLost = Some 7, bDamage = Some 3200, bKills = Some 15, bDeaths = Some 10,
       bAssists = Some 5 \<rparr>"

definition sampleMatch :: match where
  "sampleMatch =
     \<lparr> mid = 7, date = ''2024-05-01'', time = ''18:30'', matchType = Ranked, outcome = Win,
       map_name = ''Ascent'', roundsWon = 13, roundsLost = 7, damage = 3200, kills = 15,
       deaths = 10, assists = 5 \<rparr>"

definition updateFails :: "dbcall \<Rightarrow> bool" where
  "updateFails c = (c = UserFindByIdAndUpdate)"

definition noFailure :: "dbcall \<Rightarrow> bool" where
  "noFailure c = False"

definition staleStore :: store where
  "staleStore = \<lparr> matches = [sampleMatch], stats = stats signedUp \<rparr>"

text \<open>
  A second match from the same body under the \<open>_id\<close> 8, and the account after it has
  been added, without failure, to the account left behind by the failed request.
\<close>

definition secondMatch :: match where
  "secondMatch = sampleMatch\<lparr>mid := 8\<rparr>"

definition healedStore :: store where
  "healedStore =
     \<lparr> matches = [sampleMatch, secondMatch],
       stats = Some (calculateUserStats [sampleMatch, secondMatch]) \<rparr>"

section \<open>Facts about rounding to a double\<close>

lemma round_half_even_of_int: "round_half_even (of_int m) = m"
  by (simp add: round_half_even_def)

lemma round_half_even_eqI:
  assumes "\<bar>x - of_int m\<bar> < 1 / 2"
  shows "round_half_even x = m"
proof -
  have b: "of_int m - 1 / 2 < x" "x < of_int m + 1 / 2" using assms by linarith+
  then have "\<lfloor>x\<rfloor> = m \<or> \<lfloor>x\<rfloor> = m - 1" by linarith
  then show ?thesis
  proof
    assume f: "\<lfloor>x\<rfloor> = m"
    with b have "x - of_int m < 1 / 2" by linarith
    with f show ?thesis by (simp add: round_half_even_def Let_def)
  next
    assume f: "\<lfloor>x\<rfloor> = m - 1"
    with b have "1 / 2 < x - of_int (m - 1)" by simp
    with f show ?thesis by (simp add: round_half_even_def Let_def)
  qed
qed

lemma round_half_even_tie:
  assumes "x = of_int f + 1 / 2"
  shows "round_half_even x = (if even f then f else f + 1)"
proof -
  have "\<lfloor>x\<rfloor> = f" using assms by linarith
  then show ?thesis using assms by (simp add: round_half_even_def Let_def)
qed

lemma round_half_even_le:
  assumes "x \<le> of_int z"
  shows "round_half_even x \<le> z"
proof -
  have "\<lfloor>x\<rfloor> \<le> z" using assms by linarith
  then consider "\<lfloor>x\<rfloor> < z" | "\<lfloor>x\<rfloor> = z" by linarith
  then show ?thesis
  proof cases
    case 1
    then show ?thesis by (simp add: round_half_even_def Let_def)
  next
    case 2
    then have "x = of_int z" using assms by linarith
    then show ?thesis by (simp add: round_half_even_of_int)
  qed
qed

lemma round_half_even_ge:
  assumes "of_int z \<le> x"
  shows "z \<le> round_half_even x"
proof -
  have "z \<le> \<lfloor>x\<rfloor>" using assms by (simp add: le_floor_iff)
  then show ?thesis by (simp add: round_half_even_def Let_def)
qed

lemma round_half_even_le_double:
  assumes "0 \<le> x"
  shows "of_int (round_half_even x) \<le> 2 * x"
proof (cases "x < 1")
  case True
  then have f: "\<lfloor>x\<rfloor> = 0" using assms by linarith
  show ?thesis using assms f by (simp add: round_half_even_def Let_def)
next
  case False
  have "of_int \<lfloor>x\<rfloor> \<le> x" by simp
  moreover have "round_half_even x \<le> \<lfloor>x\<rfloor> + 1" by (simp add: round_half_even_def Let_def)
  then have "(of_int (round_half_even x) :: rat) \<le> of_int (\<lfloor>x\<rfloor> + 1)" by (simp only: of_int_le_iff)
  ultimately show ?thesis using False by linarith
qed

lemma bitlen_between:
  assumes "2 ^ w \<le> n" "n < 2 ^ (w + 1)"
  shows "bitlen n = int w + 1"
  using bitlen_twopow_add_eq [of "n - 2 ^ w" w] assms by simp

lemma ilog2_unique:
  assumes "0 < q" "2 powi e \<le> q" "q < 2 powi (e + 1)"
  shows "ilog2 q = e"
proof (cases "1 \<le> q")
  case True
  have "0 \<le> e"
  proof (rule ccontr)
    assume "\<not> 0 \<le> e"
    then have "(2::rat) powi (e + 1) \<le> 2 powi 0" by (intro power_int_increasing) auto
    with assms True show False by simp
  qed
  then obtain w where w: "e = int w" using nonneg_int_cases by blast
  have "(2::rat) ^ w \<le> q" "q < 2 ^ (w + 1)" using assms w by (simp_all add: power_int_add)
  then have "2 ^ w \<le> \<lfloor>q\<rfloor>" "\<lfloor>q\<rfloor> < 2 ^ (w + 1)"
    by (simp_all add: le_floor_iff floor_less_iff)
  then have "bitlen \<lfloor>q\<rfloor> = int w + 1" by (rule bitlen_between)
  with True w show ?thesis by (simp add: ilog2_def)
next
  case False
  then have q1: "q < 1" by simp
  have "e < 0"
  proof (rule ccontr)
    assume "\<not> e < 0"
    then have "(2::rat) powi 0 \<le> 2 powi e" by (intro power_int_increasing) auto
    with assms q1 show False by simp
  qed
  then have "e = - int (Suc (nat (- e - 1)))" by simp
  then obtain v where v: "e = - int (Suc v)" ..
  have e1: "e + 1 = - int v" using v by simp
  have pe: "(2::rat) powi e = 1 / 2 ^ Suc v"
    unfolding v power_int_minus power_int_of_nat by (simp only: inverse_eq_divide)
  have pe1: "(2::rat) powi (e + 1) = 1 / 2 ^ v"
    unfolding e1 power_int_minus power_int_of_nat by (simp only: inverse_eq_divide)
  have lo: "1 / 2 ^ Suc v \<le> q" using assms(2) pe by simp
  have hi: "q < 1 / 2 ^ v" using assms(3) pe1 by simp
  have "1 / q \<le> 2 ^ Suc v" using lo assms(1) by (simp add: field_simps)
  then have c_hi: "\<lceil>1 / q\<rceil> \<le> 2 ^ Suc v" by (simp add: ceiling_le_iff)
  have "2 ^ v < 1 / q" using hi assms(1) by (simp add: field_simps)
  then have c_lo: "2 ^ v < \<lceil>1 / q\<rceil>" by (simp add: less_ceiling_iff)
  have "bitlen (\<lceil>1 / q\<rceil> - 1) = int v + 1"
    using c_lo c_hi by (intro bitlen_between) auto
  with False v show ?thesis by (simp add: ilog2_def)
qed

lemma ilog2_bounds:
  assumes "0 < q"
  shows "2 powi ilog2 q \<le> q \<and> q < 2 powi (ilog2 q + 1)"
proof (cases "1 \<le> q")
  case True
  define n where "n = \<lfloor>q\<rfloor>"
  have n1: "1 \<le> n" using True by (simp add: n_def le_floor_iff)
  define b where "b = bitlen n"
  have b1: "2 ^ nat (b - 1) \<le> n" and b2: "n < 2 ^ nat b"
    using bitlen_bounds [of n] n1 by (simp_all add: b_def)
  have bpos: "1 \<le> b" using n1 bitlen_eq_zero_iff [of n] bitlen_nonneg [of n] by (simp add: b_def)
  have e: "ilog2 q = b - 1" using True by (simp add: ilog2_def n_def b_def)
  have "(2::rat) ^ nat (b - 1) \<le> of_int n" using b1 by simp
  also have "\<dots> \<le> q" by (simp add: n_def)
  finally have lo: "2 powi (b - 1) \<le> q" using bpos by (simp add: power_int_nonneg_exp)
  have nb: "n + 1 \<le> 2 ^ nat b" using b2 by simp
  have "q < of_int (n + 1)" unfolding n_def by linarith
  also have "(of_int (n + 1) :: rat) \<le> 2 ^ nat b" using nb by (simp only: of_int_le_numeral_power_cancel_iff)
  finally have hi: "q < 2 powi b" using bpos by (simp add: power_int_nonneg_exp)
  show ?thesis using lo hi by (simp add: e)
next
  case False
  then have q1: "1 < 1 / q" using assms by simp
  define c where "c = \<lceil>1 / q\<rceil>"
  have c2: "1 \<le> c - 1" using q1 by (simp add: c_def less_ceiling_iff)
  define b where "b = bitlen (c - 1)"
  have b1: "2 ^ nat (b - 1) \<le> c - 1" and b2: "c - 1 < 2 ^ nat b"
    using bitlen_bounds [of "c - 1"] c2 by (simp_all add: b_def)
  have bpos: "1 \<le> b"
    using c2 bitlen_eq_zero_iff [of "c - 1"] bitlen_nonneg [of "c - 1"] by (simp add: b_def)
  have e: "ilog2 q = - b" using False by (simp add: ilog2_def c_def b_def)
  have pb: "(2::rat) powi (- b) = 1 / 2 ^ nat b"
    using bpos by (simp add: power_int_minus power_int_nonneg_exp inverse_eq_divide)
  have pb1: "(2::rat) powi (- b + 1) = 1 / 2 ^ nat (b - 1)"
  proof -
    have "- b + 1 = - (b - 1)" by simp
    then show ?thesis
      using bpos by (simp only: power_int_minus) (simp add: power_int_nonneg_exp inverse_eq_divide)
  qed
  have cb: "c \<le> 2 ^ nat b" using b2 by simp
  have "1 / q \<le> of_int c" by (simp add: c_def)
  also have "(of_int c :: rat) \<le> 2 ^ nat b" using cb by simp
  finally have "1 / q \<le> 2 ^ nat b" .
  then have lo: "1 / 2 ^ nat b \<le> q" using assms by (simp add: field_simps)
  have "2 ^ nat (b - 1) < c" using b1 by simp
  then have "(of_int (2 ^ nat (b - 1)) :: rat) < 1 / q" by (simp only: c_def less_ceiling_iff)
  then have "2 ^ nat (b - 1) < 1 / q" by (simp only: of_int_power of_int_numeral)
  then have hi: "q < 1 / 2 ^ nat (b - 1)" using assms by (simp add: field_simps)
  have "2 powi ilog2 q \<le> q" using lo by (simp only: e pb)
  moreover have "q < 2 powi (ilog2 q + 1)" using hi by (simp only: e pb1)
  ultimately show ?thesis by blast
qed

lemma fl_eqI:
  assumes "0 < q" "2 powi e \<le> q" "q < 2 powi (e + 1)" "- 1022 \<le> e"
    and "\<bar>q / 2 powi (e - 52) - of_int m\<bar> < 1 / 2"
    and "of_int m * 2 powi (e - 52) < (2::rat) ^ 1024"
  shows "fl q = Fin (of_int m * 2 powi (e - 52))"
proof -
  have "ilog2 q = e" using assms(1-3) by (rule ilog2_unique)
  moreover have "round_half_even (q / 2 powi (e - 52)) = m" using assms(5) by (rule round_half_even_eqI)
  ultimately show ?thesis using assms(1,4,6) by (simp add: fl_def Let_def max_def)
qed

lemma fl_zero: "fl 0 = Fin 0"
  by (simp add: fl_def)

lemma fl_exact_less:
  assumes "0 < z" "z < 2 ^ 53"
  shows "fl (of_int z) = Fin (of_int z)"
proof -
  define b where "b = bitlen z"
  have b1: "2 ^ nat (b - 1) \<le> z" and b2: "z < 2 ^ nat b"
    using bitlen_bounds [OF assms(1)] by (simp_all add: b_def)
  have bpos: "1 \<le> b" using assms(1) bitlen_eq_zero_iff [of z] bitlen_nonneg [of z] by (simp add: b_def) 
  have b53: "b \<le> 53" using assms(2) by (simp add: b_def bitlen_le_iff_power)
  define e where "e = b - 1"
  define j where "j = nat (52 - e)"
  have e0: "0 \<le> e" "e \<le> 52" using bpos b53 by (simp_all add: e_def)
  have pe: "(2::rat) powi e = 2 ^ nat e" using e0 by (simp add: power_int_nonneg_exp)
  have pe1: "(2::rat) powi (e + 1) = 2 ^ nat b" using e0 by (simp add: power_int_nonneg_exp e_def)
  have pk: "(2::rat) powi (e - 52) = 1 / 2 ^ j"
  proof -
    have "e - 52 = - int j" using e0 by (simp add: j_def)
    then show ?thesis by (simp add: power_int_minus inverse_eq_divide)
  qed
  have "fl (of_int z) = Fin (of_int (z * 2 ^ j) * 2 powi (e - 52))"
  proof (rule fl_eqI)
    show "0 < (of_int z :: rat)" using assms(1) by simp
    have "2 ^ nat e \<le> z" using b1 by (simp add: e_def)
    then have "(of_int (2 ^ nat e) :: rat) \<le> of_int z" by (simp only: of_int_le_iff)
    then show "2 powi e \<le> (of_int z :: rat)" by (simp add: pe)
    have "(of_int z :: rat) < of_int (2 ^ nat b)" using b2 by (simp only: of_int_less_iff)
    then show "(of_int z :: rat) < 2 powi (e + 1)" by (simp add: pe1)
    show "- 1022 \<le> e" using e0 by simp
    show "\<bar>of_int z / 2 powi (e - 52) - (of_int (z * 2 ^ j) :: rat)\<bar> < 1 / 2" by (simp add: pk)
    have "(of_int z :: rat) < of_int (2 ^ 53)" using assms(2) by (simp only: of_int_less_iff)
    then have "(of_int z :: rat) < 2 ^ 1024" by simp
    then show "of_int (z * 2 ^ j) * 2 powi (e - 52) < (2::rat) ^ 1024" by (simp add: pk)
  qed
  then show ?thesis by (simp add: pk)
qed

lemma fl_two53: "fl (2 ^ 53) = Fin (2 ^ 53)"
  using fl_eqI [of "2 ^ 53" 53 "2 ^ 52"] by simp

lemma fl_exact:
  assumes "q \<in> \<int>" "0 \<le> q" "q \<le> 2 ^ 53"
  shows "fl q = Fin q"
proof -
  from assms(1) obtain z where z: "q = of_int z" by (rule Ints_cases)
  show ?thesis
  proof (cases "q = 0")
    case True
    then show ?thesis by (simp add: fl_def)
  next
    case False
    with assms z have zpos: "0 < z" by simp
    show ?thesis
    proof (cases "z = 2 ^ 53")
      case True
      then show ?thesis using fl_two53 z by simp
    next
      case False
      have "(of_int z :: rat) \<le> of_int (2 ^ 53)" using assms(3) z by simp
      then have "z \<le> 2 ^ 53" by (simp only: of_int_le_iff)
      with False have "z < 2 ^ 53" by simp
      with zpos show ?thesis unfolding z by (rule fl_exact_less)
    qed
  qed
qed

lemma fl_two53_plus1: "fl (2 ^ 53 + 1) = Fin (2 ^ 53)"
  using ilog2_unique [of "2 ^ 53 + 1" 53] round_half_even_tie [of "(2 ^ 53 + 1) / 2" "2 ^ 52"]
  by (simp add: fl_def)

lemma fl_two53_plus2: "fl (2 ^ 53 + 2) = Fin (2 ^ 53 + 2)"
  using fl_eqI [of "2 ^ 53 + 2" 53 "2 ^ 52 + 1"] by simp

lemma fl_two1023: "fl (2 ^ 1023) = Fin (2 ^ 1023)"
  using fl_eqI [of "2 ^ 1023" 1023 "2 ^ 52"] by simp

lemma fl_two1024: "fl (2 ^ 1023 + 2 ^ 1023) = Infinity"
  using ilog2_unique [of "2 ^ 1023 + 2 ^ 1023" 1024] round_half_even_of_int [of "2 ^ 52"]
  by (simp add: fl_def)

lemma fl_23_22: "fl (23 / 22) = Fin (2354154350670941 / 2251799813685248)"
  using fl_eqI [of "23 / 22" 0 4708308701341882] by simp

lemma fl_21_20: "fl (21 / 20) = Fin (4728779608739021 / 4503599627370496)"
  using fl_eqI [of "21 / 20" 0 4728779608739021] by simp

lemma fl_23_25: "fl (23 / 25) = Fin (8286623314361713 / 9007199254740992)"
  using fl_eqI [of "23 / 25" "- 1" 8286623314361713] by simp

lemma fl_half: "fl (1 / 2) = Fin (1 / 2)"
  using fl_eqI [of "1 / 2" "- 1" "2 ^ 52"] by simp

lemma round_half_even_error: "\<bar>of_int (round_half_even x) - x\<bar> \<le> 1 / 2"
proof -
  have "of_int \<lfloor>x\<rfloor> \<le> x" "x < of_int \<lfloor>x\<rfloor> + 1" by linarith+
  then show ?thesis by (auto simp: round_half_even_def Let_def)
qed

lemma maxDouble_less: "maxDouble < 2 ^ 1024"
  by (simp add: maxDouble_def)

lemma maxDouble_ge: "2 ^ 1023 \<le> maxDouble"
  by (simp add: maxDouble_def)

lemma maxDouble_pos: "0 \<le> maxDouble"
  by (simp add: maxDouble_def)

lemma fl_crude:
  assumes "0 \<le> q" "q < 2 ^ 1023"
  shows "\<exists>r. fl q = Fin r \<and> 0 \<le> r \<and> r \<le> 2 * q"
proof (cases "q = 0")
  case True
  then show ?thesis by (simp add: fl_def)
next
  case False
  then have qpos: "0 < q" using assms by simp
  define p where "p = (2::rat) powi (max (ilog2 q) (- 1022) - 52)"
  have ppos: "0 < p" by (simp add: p_def)
  define m where "m = round_half_even (q / p)"
  have x0: "0 \<le> q / p" using qpos ppos by simp
  then have "of_int m \<le> 2 * (q / p)" unfolding m_def by (rule round_half_even_le_double)
  then have r_le: "of_int m * p \<le> 2 * q" using ppos by (simp add: field_simps)
  have "0 \<le> m" unfolding m_def using round_half_even_ge [of 0 "q / p"] x0 by simp
  then have r_ge: "0 \<le> of_int m * p" using ppos by simp
  have "2 * q < 2 ^ 1024" using assms(2) by simp
  with r_le have "\<not> 2 ^ 1024 \<le> of_int m * p" by linarith
  then have "fl q = Fin (of_int m * p)"
    using qpos unfolding fl_def Let_def m_def p_def by (simp only: if_False not_le [symmetric] simp_thms)
  with r_le r_ge show ?thesis by blast
qed

lemma fl_top:
  assumes "2 ^ 1023 \<le> q" "q \<le> maxDouble"
  shows "\<exists>r. fl q = Fin r \<and> 1 \<le> r \<and> r \<le> maxDouble"
proof -
  define p where "p = (2::rat) ^ 971"
  have ppos: "0 < p" by (simp add: p_def)
  have p52: "2 ^ 1023 = 2 ^ 52 * p" by (simp add: p_def)
  have qpos: "0 < q" using assms(1) by (rule less_le_trans [rotated]) simp
  have "q < 2 ^ 1024" using assms(2) maxDouble_less by simp
  then have "ilog2 q = 1023" using assms(1) qpos by (intro ilog2_unique) simp_all
  then have k: "(2::rat) powi (max (ilog2 q) (- 1022) - 52) = p" by (simp add: p_def)
  define m where "m = round_half_even (q / p)"
  have "2 ^ 52 * p \<le> q" using assms(1) unfolding p52 .
  then have "(of_int (2 ^ 52) :: rat) \<le> q / p" using ppos by (simp add: pos_le_divide_eq)
  then have m_lo: "2 ^ 52 \<le> m" unfolding m_def by (rule round_half_even_ge)
  have md: "maxDouble = (2 ^ 53 - 1) * p" by (simp only: maxDouble_def p_def)
  have "q \<le> (2 ^ 53 - 1) * p" using assms(2) unfolding md .
  then have "q / p \<le> of_int (2 ^ 53 - 1)" using ppos by (simp add: pos_divide_le_eq)
  then have m_hi: "m \<le> 2 ^ 53 - 1" unfolding m_def by (rule round_half_even_le)
  have "(of_int m :: rat) \<le> of_int (2 ^ 53 - 1)" using m_hi by (simp only: of_int_le_iff)
  then have "of_int m * p \<le> of_int (2 ^ 53 - 1) * p" using ppos by (simp only: mult_le_cancel_right_pos)
  then have r_hi: "of_int m * p \<le> maxDouble" by (simp add: md)
  have "(of_int (2 ^ 52) :: rat) \<le> of_int m" using m_lo by (simp only: of_int_le_iff)
  then have "of_int (2 ^ 52) * p \<le> of_int m * p" using ppos by (simp only: mult_le_cancel_right_pos)
  then have "2 ^ 52 * p \<le> of_int m * p" by simp
  then have "2 ^ 1023 \<le> of_int m * p" unfolding p52 .
  then have r_lo: "1 \<le> of_int m * p" by (rule order_trans [rotated]) simp
  have "\<not> 2 ^ 1024 \<le> of_int m * p" using r_hi maxDouble_less by linarith
  then have "fl q = Fin (of_int m * p)"
    using qpos unfolding fl_def Let_def m_def k by (simp only: if_False not_le [symmetric] simp_thms)
  with r_lo r_hi show ?thesis by blast
qed

lemma fl_finite:
  assumes "0 \<le> q" "q \<le> maxDouble"
  shows "isFinite (fl q)"
proof (cases "q < 2 ^ 1023")
  case True
  with assms(1) obtain r where "fl q = Fin r" using fl_crude by blast
  then show ?thesis by simp
next
  case False
  then have "2 ^ 1023 \<le> q" by simp
  with assms(2) obtain r where "fl q = Fin r" using fl_top by blast
  then show ?thesis by simp
qed

lemma fl_range:
  assumes "1 \<le> q"
  shows "fl q = Infinity \<or> (\<exists>r. fl q = Fin r \<and> 1 \<le> r \<and> r \<le> maxDouble)"
proof -
  have qpos: "0 < q" using assms by simp
  define e where "e = ilog2 q"
  have lo: "2 powi e \<le> q" and hi: "q < 2 powi (e + 1)"
    using ilog2_bounds [OF qpos] by (simp_all add: e_def)
  have e0: "0 \<le> e"
  proof (rule ccontr)
    assume "\<not> 0 \<le> e"
    then have "(2::rat) powi (e + 1) \<le> 2 powi 0" by (intro power_int_increasing) auto
    with hi assms show False by simp
  qed
  define p where "p = (2::rat) powi (e - 52)"
  have ppos: "0 < p" by (simp add: p_def)
  have k: "(2::rat) powi (max (ilog2 q) (- 1022) - 52) = p"
    using e0 by (simp add: p_def e_def max_def)
  have pe: "(2::rat) powi e = 2 ^ 52 * p"
    using power_int_add [of "2::rat" 52 "e - 52"] by (simp add: p_def)
  have "e + 1 = 53 + (e - 52)" by simp
  then have "(2::rat) powi (e + 1) = 2 powi (53 + (e - 52))" by (rule arg_cong)
  then have pe1: "(2::rat) powi (e + 1) = 2 ^ 53 * p"
    using power_int_add [of "2::rat" 53 "e - 52"] by (simp add: p_def)
  define m where "m = round_half_even (q / p)"
  have "2 ^ 52 * p \<le> q" using lo unfolding pe .
  then have "(of_int (2 ^ 52) :: rat) \<le> q / p" using ppos by (simp add: pos_le_divide_eq)
  then have m_lo: "2 ^ 52 \<le> m" unfolding m_def by (rule round_half_even_ge)
  have "q < 2 ^ 53 * p" using hi unfolding pe1 .
  then have "q / p \<le> of_int (2 ^ 53)" using ppos by (simp add: pos_divide_le_eq)
  then have m_hi: "m \<le> 2 ^ 53" unfolding m_def by (rule round_half_even_le)
  have "(of_int (2 ^ 52) :: rat) \<le> of_int m" using m_lo by (simp only: of_int_le_iff)
  then have "of_int (2 ^ 52) * p \<le> of_int m * p" using ppos by (simp only: mult_le_cancel_right_pos)
  then have "2 ^ 52 * p \<le> of_int m * p" by simp
  then have r_pe: "2 powi e \<le> of_int m * p" unfolding pe .
  have "1 \<le> (2::rat) powi e" using e0 by simp
  with r_pe have r_lo: "1 \<le> of_int m * p" by simp
  show ?thesis
  proof (cases "2 ^ 1024 \<le> of_int m * p")
    case True
    then have "fl q = Infinity"
      using qpos unfolding fl_def Let_def m_def k by (simp only: if_True if_False not_le [symmetric] simp_thms)
    then show ?thesis by simp
  next
    case False
    then have eq: "fl q = Fin (of_int m * p)"
      using qpos unfolding fl_def Let_def m_def k by (simp only: if_False not_le [symmetric] simp_thms)
    have "(2::rat) powi e < 2 powi 1024" using r_pe False by simp
    then have "e < 1024" using power_int_le_imp_less_exp [of "2::rat" e 1024] by simp
    then consider "e \<le> 1022" | "e = 1023" by linarith
    then have "of_int m * p \<le> maxDouble"
    proof cases
      case 1
      have "(of_int m :: rat) \<le> of_int (2 ^ 53)" using m_hi by (simp only: of_int_le_iff)
      then have "of_int m * p \<le> of_int (2 ^ 53) * p" using ppos by (simp only: mult_le_cancel_right_pos)
      then have "of_int m * p \<le> 2 ^ 53 * p" by simp
      then have "of_int m * p \<le> 2 powi (e + 1)" unfolding pe1 .
      also have "(2::rat) powi (e + 1) \<le> 2 powi 1023" using 1 by (intro power_int_increasing) auto
      also have "(2::rat) powi 1023 \<le> maxDouble" using maxDouble_ge by simp
      finally show ?thesis .
    next
      case 2
      then have p971: "p = 2 ^ 971" by (simp add: p_def)
      have t: "(2::rat) ^ 1024 = 2 ^ 53 * p" unfolding p971 by simp
      have "of_int m * p < 2 ^ 53 * p" using False unfolding t by simp
      then have "(of_int m :: rat) < of_int (2 ^ 53)" using ppos by simp
      then have "m < 2 ^ 53" by (simp only: of_int_less_iff)
      then have "m \<le> 2 ^ 53 - 1" by simp
      then have "(of_int m :: rat) \<le> of_int (2 ^ 53 - 1)" by (simp only: of_int_le_iff)
      then have "of_int m * p \<le> of_int (2 ^ 53 - 1) * p" using ppos by (simp only: mult_le_cancel_right_pos)
      then show ?thesis by (simp add: maxDouble_def p971)
    qed
    with eq r_lo show ?thesis by blast
  qed
qed

lemma fl_nonneg:
  assumes "fl q = Fin r"
  shows "0 \<le> r"
proof (cases "q \<le> 0")
  case True
  with assms show ?thesis by (simp add: fl_def)
next
  case False
  define p where "p = (2::rat) powi (max (ilog2 q) (- 1022) - 52)"
  have ppos: "0 < p" by (simp add: p_def)
  have "0 \<le> q / p" using False ppos by simp
  then have "0 \<le> round_half_even (q / p)" using round_half_even_ge [of 0 "q / p"] by simp
  then have "0 \<le> of_int (round_half_even (q / p)) * p" using ppos by simp
  moreover have "r = of_int (round_half_even (q / p)) * p"
    using assms False unfolding fl_def Let_def p_def by (simp split: if_splits)
  ultimately show ?thesis by simp
qed

lemma fl_value:
  assumes "0 < q" and "fl q = Fin r"
  shows "r = of_int (round_half_even (q / 2 powi (max (ilog2 q) (- 1022) - 52)))
             * 2 powi (max (ilog2 q) (- 1022) - 52)"
  using assms unfolding fl_def Let_def by (simp split: if_splits)

lemma fl_error:
  assumes "0 < q" and "2 powi (- 1022) \<le> q" and "fl q = Fin r"
  shows "\<bar>r - q\<bar> \<le> q / 2 ^ 53"
proof -
  define e where "e = ilog2 q"
  have lo: "2 powi e \<le> q" and hi: "q < 2 powi (e + 1)"
    using ilog2_bounds [OF assms(1)] by (simp_all add: e_def)
  have e1022: "- 1022 \<le> e"
  proof (rule ccontr)
    assume "\<not> - 1022 \<le> e"
    then have "e + 1 \<le> - 1022" by simp
    then have "(2::rat) powi (e + 1) \<le> 2 powi (- 1022)" by (intro power_int_increasing) auto
    with assms(2) hi show False by linarith
  qed
  define p where "p = (2::rat) powi (e - 52)"
  have ppos: "0 < p" by (simp add: p_def)
  have k: "(2::rat) powi (max (ilog2 q) (- 1022) - 52) = p"
    using e1022 by (simp add: p_def e_def max_def)
  have pe: "(2::rat) powi e = 2 ^ 52 * p"
    using power_int_add [of "2::rat" 52 "e - 52"] by (simp add: p_def)
  define m where "m = round_half_even (q / p)"
  have r: "r = of_int m * p" using fl_value [OF assms(1,3)] unfolding k m_def .
  have "\<bar>of_int m - q / p\<bar> \<le> 1 / 2" unfolding m_def by (rule round_half_even_error)
  then have "\<bar>of_int m - q / p\<bar> * p \<le> (1 / 2) * p" using ppos by (simp only: mult_le_cancel_right_pos)
  moreover have "\<bar>of_int m - q / p\<bar> * p = \<bar>of_int m * p - q\<bar>"
  proof -
    have "\<bar>of_int m - q / p\<bar> * p = \<bar>(of_int m - q / p) * p\<bar>" using ppos by (simp add: abs_mult)
    also have "(of_int m - q / p) * p = of_int m * p - q" using ppos by (simp add: field_simps)
    finally show ?thesis .
  qed
  ultimately have err: "\<bar>r - q\<bar> \<le> p / 2" by (simp add: r)
  have "2 ^ 52 * p \<le> q" using lo unfolding pe .
  then have "p / 2 \<le> q / 2 ^ 53" by simp
  with err show ?thesis by linarith
qed

lemma fl_le_two53:
  assumes "0 \<le> q" and "q \<le> 2 ^ 53"
  shows "\<exists>x. fl q = Fin x \<and> 0 \<le> x \<and> x \<le> 2 ^ 53"
proof -
  consider "q < 1" | "q = 2 ^ 53" | "1 \<le> q" "q < 2 ^ 53" using assms by linarith
  then show ?thesis
  proof cases
    case 1
    then have "q < 2 ^ 1023" by (rule less_le_trans) simp
    with assms(1) obtain x where x: "fl q = Fin x" "0 \<le> x" "x \<le> 2 * q" using fl_crude by blast
    have "x \<le> 2 ^ 53" using x(3) 1 by (rule_tac order_trans [where y = 2]) simp_all
    with x show ?thesis by blast
  next
    case 2
    then show ?thesis using fl_two53 by simp
  next
    case 3
    have qpos: "0 < q" using 3(1) by simp
    define e where "e = ilog2 q"
    have lo: "2 powi e \<le> q" and hi: "q < 2 powi (e + 1)"
      using ilog2_bounds [OF qpos] by (simp_all add: e_def)
    have e0: "0 \<le> e"
    proof (rule ccontr)
      assume "\<not> 0 \<le> e"
      then have "(2::rat) powi (e + 1) \<le> 2 powi 0" by (intro power_int_increasing) auto
      with hi 3(1) show False by simp
    qed
    have "(2::rat) powi e < 2 powi 53" using lo 3(2) by simp
    then have "e < 53" using power_int_le_imp_less_exp [of "2::rat" e 53] by simp
    define p where "p = (2::rat) powi (e - 52)"
    have ppos: "0 < p" by (simp add: p_def)
    have k: "(2::rat) powi (max (ilog2 q) (- 1022) - 52) = p"
      using e0 by (simp add: p_def e_def max_def)
    have "e + 1 = 53 + (e - 52)" by simp
    then have "(2::rat) powi (e + 1) = 2 powi (53 + (e - 52))" by (rule arg_cong)
    then have pe1: "(2::rat) powi (e + 1) = 2 ^ 53 * p"
      using power_int_add [of "2::rat" 53 "e - 52"] by (simp add: p_def)
    define m where "m = round_half_even (q / p)"
    have "q < 2 ^ 53 * p" using hi unfolding pe1 .
    then have "q / p \<le> of_int (2 ^ 53)" using ppos by (simp add: pos_divide_le_eq)
    then have "m \<le> 2 ^ 53" unfolding m_def by (rule round_half_even_le)
    then have "(of_int m :: rat) \<le> of_int (2 ^ 53)" by (simp only: of_int_le_iff)
    then have "of_int m * p \<le> of_int (2 ^ 53) * p" using ppos by (simp only: mult_le_cancel_right_pos)
    then have "of_int m * p \<le> 2 ^ 53 * p" by simp
    then have "of_int m * p \<le> 2 powi (e + 1)" unfolding pe1 .
    also have "(2::rat) powi (e + 1) \<le> 2 powi 53" using \<open>e < 53\<close> by (intro power_int_increasing) auto
    finally have le: "of_int m * p \<le> 2 ^ 53" by simp
    then have "\<not> 2 ^ 1024 \<le> of_int m * p" by (simp add: not_le)
    then have eq: "fl q = Fin (of_int m * p)"
      using qpos unfolding fl_def Let_def m_def k by (simp only: if_False not_le [symmetric] simp_thms)
    from eq have "0 \<le> of_int m * p" by (rule fl_nonneg)
    with eq le show ?thesis by blast
  qed
qed

lemma fl_7_10: "fl (7 / 10) = Fin (3152519739159347 / 4503599627370496)"
  using fl_eqI [of "7 / 10" "- 1" 6305039478318694] by simp

lemma toFixed_finite:
  assumes "0 \<le> x"
  shows "isFinite (parseFloat (toFixed (Fin x) d))"
proof (cases "10 ^ 21 \<le> x")
  case True
  then show ?thesis by simp
next
  case False
  define n where "n = \<lfloor>x * 10 ^ d + 1 / 2\<rfloor>"
  have pos: "(0::rat) < 10 ^ d" by simp
  have one: "(1::rat) \<le> 10 ^ d" by simp
  have "0 \<le> x * 10 ^ d + 1 / 2" using assms by simp
  then have n0: "0 \<le> n" by (simp add: n_def)
  have "of_int n \<le> x * 10 ^ d + 1 / 2" by (simp add: n_def)
  then have "of_int n / 10 ^ d \<le> (x * 10 ^ d + 1 / 2) / 10 ^ d"
    using pos by (simp only: divide_le_cancel) simp
  also have "\<dots> = x + (1 / 2) / 10 ^ d" by (simp add: add_divide_distrib)
  also have "\<dots> \<le> x + 1 / 2" using one by (simp add: field_simps)
  also have "\<dots> < 10 ^ 21 + 1" using False by simp
  also have "\<dots> < (2::rat) ^ 1023" by simp
  finally have hi: "of_int n / 10 ^ d < (2::rat) ^ 1023" .
  have "0 \<le> (of_int n :: rat) / 10 ^ d" using n0 by simp
  with hi obtain r where "fl (of_int n / 10 ^ d) = Fin r" using fl_crude by blast
  then show ?thesis using False by (simp add: n_def)
qed

lemma toFixed_kd: "toFixed (Fin (2354154350670941 / 2251799813685248)) 2 = Decimal 105 2"
  by (simp add: floor_eq_iff)

lemma toFixed_kpr: "toFixed (Fin (8286623314361713 / 9007199254740992)) 2 = Decimal 92 2"
  by (simp add: floor_eq_iff)

lemma toFixed_dpr: "toFixed (Fin 224) 0 = Decimal 224 0"
  by (simp add: floor_eq_iff)

lemma toFixed_wp: "toFixed (Fin 50) (Suc 0) = Decimal 500 (Suc 0)"
  by (simp add: floor_eq_iff)

lemma toFixed_ten: "toFixed (Fin 10) 0 = Decimal 10 0"
  by (simp add: floor_eq_iff)

lemma toFixed_seventy: "toFixed (Fin (3152519739159347 / 4503599627370496)) 2 = Decimal 70 2"
  by (simp add: floor_eq_iff)

lemma round_to_decimals:
  assumes "q = 0 \<or> 2 powi (- 1022) \<le> q" and "0 \<le> q" and "q \<le> 2 ^ 53"
  shows "\<exists>n x. fl q = Fin x \<and> 0 \<le> x \<and> x \<le> 2 ^ 53 \<and>
           toFixed (fl q) d = Decimal n d \<and> 0 \<le> n \<and> of_int n \<le> x * 10 ^ d + 1 / 2 \<and>
           \<bar>of_int n / 10 ^ d - q\<bar> \<le> 1 / (2 * 10 ^ d) + q / 2 ^ 53"
proof -
  from fl_le_two53 [OF assms(2,3)] obtain x where x: "fl q = Fin x" "0 \<le> x" "x \<le> 2 ^ 53"
    by blast
  have xq: "\<bar>x - q\<bar> \<le> q / 2 ^ 53"
  proof (cases "q = 0")
    case True
    with x(1) show ?thesis by (simp add: fl_zero)
  next
    case False
    with assms(1,2) have "0 < q" "2 powi (- 1022) \<le> q" by simp_all
    then show ?thesis using x(1) by (rule fl_error)
  qed
  define n where "n = \<lfloor>x * 10 ^ d + 1 / 2\<rfloor>"
  have pos: "(0::rat) < 10 ^ d" by simp
  have "\<not> 10 ^ 21 \<le> x" using x(3) by simp
  then have tf: "toFixed (fl q) d = Decimal n d" by (simp add: x(1) n_def)
  have "0 \<le> x * 10 ^ d + 1 / 2" using x(2) by simp
  then have n0: "0 \<le> n" by (simp add: n_def)
  have n1: "of_int n \<le> x * 10 ^ d + 1 / 2" and n2: "x * 10 ^ d + 1 / 2 < of_int n + 1"
    unfolding n_def by linarith+
  then have "\<bar>of_int n - x * 10 ^ d\<bar> \<le> 1 / 2" by linarith
  then have "\<bar>of_int n - x * 10 ^ d\<bar> / 10 ^ d \<le> (1 / 2) / 10 ^ d"
    using pos by (simp only: divide_le_cancel) simp
  moreover have "\<bar>of_int n - x * 10 ^ d\<bar> / 10 ^ d = \<bar>of_int n / 10 ^ d - x\<bar>"
  proof -
    have "\<bar>of_int n - x * 10 ^ d\<bar> / 10 ^ d = \<bar>(of_int n - x * 10 ^ d) / 10 ^ d\<bar>"
      by simp
    also have "(of_int n - x * 10 ^ d) / 10 ^ d = of_int n / 10 ^ d - x"
      by (simp add: diff_divide_distrib)
    finally show ?thesis .
  qed
  ultimately have "\<bar>of_int n / 10 ^ d - x\<bar> \<le> 1 / (2 * 10 ^ d)" by simp
  with xq have "\<bar>of_int n / 10 ^ d - q\<bar> \<le> 1 / (2 * 10 ^ d) + q / 2 ^ 53" by linarith
  with x tf n0 n1 show ?thesis by blast
qed

lemma quotient_range:
  assumes "0 < r" and "a \<le> 2 ^ 53" and "r \<le> (2 ^ 53 :: nat)"
  shows "(of_nat a / of_nat r :: rat) = 0 \<or> 2 powi (- 1022) \<le> (of_nat a / of_nat r :: rat)"
    and "0 \<le> (of_nat a / of_nat r :: rat)"
    and "(of_nat a / of_nat r :: rat) \<le> 2 ^ 53"
proof -
  have r1: "(1::rat) \<le> of_nat r" using assms(1) by (simp add: Suc_le_eq)
  have r53: "(of_nat r :: rat) \<le> 2 ^ 53"
  proof -
    have "(of_nat r :: rat) \<le> of_nat (2 ^ 53)" using assms(3) by (simp only: of_nat_le_iff)
    then show ?thesis by simp
  qed
  have a53: "(of_nat a :: rat) \<le> 2 ^ 53"
  proof -
    have "(of_nat a :: rat) \<le> of_nat (2 ^ 53)" using assms(2) by (simp only: of_nat_le_iff)
    then show ?thesis by simp
  qed
  show "0 \<le> (of_nat a / of_nat r :: rat)" by simp
  have "(of_nat a :: rat) * 1 \<le> of_nat a * of_nat r" using r1 by (intro mult_left_mono) simp_all
  then have "(of_nat a / of_nat r :: rat) \<le> of_nat a" using r1 by (simp add: field_simps)
  with a53 show "(of_nat a / of_nat r :: rat) \<le> 2 ^ 53" by linarith
  show "(of_nat a / of_nat r :: rat) = 0 \<or> 2 powi (- 1022) \<le> (of_nat a / of_nat r :: rat)"
  proof (cases "a = 0")
    case True
    then show ?thesis by simp
  next
    case False
    then have a1: "(1::rat) \<le> of_nat a" by (simp add: Suc_le_eq)
    have "(2::rat) powi (- 1022) \<le> 2 powi (- 53)" by (intro power_int_increasing) auto
    also have "(2::rat) powi (- 53) = 1 / 2 ^ 53" by (simp add: power_int_minus inverse_eq_divide)
    also have "(1::rat) / 2 ^ 53 \<le> 1 / of_nat r" using r1 r53 by (intro divide_left_mono) simp_all
    also have "(1::rat) / of_nat r \<le> of_nat a / of_nat r" using a1 r1 by (intro divide_right_mono) simp_all
    finally show ?thesis by blast
  qed
qed

lemma jsadd_num:
  assumes "a + b \<le> 2 ^ 53"
  shows "jsadd (num a) (num b) = num (a + b)"
proof -
  have "(of_nat (a + b) :: rat) \<le> of_nat (2 ^ 53)" using assms by (simp only: of_nat_le_iff)
  then have "fl (of_nat (a + b)) = Fin (of_nat (a + b))"
    by (intro fl_exact) simp_all
  then show ?thesis by (simp add: num_def)
qed

lemma jsadd_one:
  assumes "a \<le> 2 ^ 53"
  shows "jsadd (num a) (Fin 1) = num (min (a + 1) (2 ^ 53))"
proof (cases "a = 2 ^ 53")
  case True
  then show ?thesis using fl_two53_plus1 by (simp add: num_def)
next
  case False
  with assms have "a + 1 \<le> 2 ^ 53" by simp
  then have "jsadd (num a) (num 1) = num (a + 1)" by (rule jsadd_num)
  with \<open>a + 1 \<le> 2 ^ 53\<close> show ?thesis by (simp add: num_def min_def)
qed

lemma jsadd_accOk:
  assumes "accOk x"
  shows "accOk (jsadd x (num n))"
proof (cases x)
  case (Fin q)
  show ?thesis
  proof (cases "q + of_nat n = 0")
    case True
    then show ?thesis using Fin maxDouble_pos by (simp add: num_def fl_zero)
  next
    case False
    have "0 \<le> q" using assms Fin by auto
    have "1 \<le> q + of_nat n"
    proof (cases "q = 0")
      case True
      with False have "n \<noteq> 0" by auto
      then have "(1::rat) \<le> of_nat n" by (simp add: Suc_le_eq)
      with True show ?thesis by simp
    next
      case False
      with assms Fin have "1 \<le> q" by simp
      then show ?thesis by (simp add: add_increasing2)
    qed
    from fl_range [OF this] show ?thesis using Fin by (auto simp: num_def)
  qed
next
  case Infinity
  then show ?thesis by (simp add: num_def)
next
  case NaN
  with assms show ?thesis by simp
qed

lemma ratio_finite:
  assumes "accOk K" "accOk D" "isFinite K" "jsgt D (Fin 0)"
  shows "isFinite (parseFloat (toFixed (jsdiv K D) d))"
proof -
  from assms(3) obtain k where K: "K = Fin k" by (cases K) simp_all
  have k: "0 \<le> k" "k \<le> maxDouble" using assms(1) K by auto
  show ?thesis
  proof (cases D)
    case (Fin q)
    with assms(2,4) have q: "1 \<le> q" by auto
    have "k * 1 \<le> k * q" using q k(1) by (rule mult_left_mono)
    then have "k / q \<le> k" using q by (simp add: field_simps)
    then have "0 \<le> k / q" "k / q \<le> maxDouble" using k q by simp_all
    then have "isFinite (fl (k / q))" by (rule fl_finite)
    then obtain x where x: "fl (k / q) = Fin x" by (cases "fl (k / q)") simp_all
    then have "0 \<le> x" by (rule fl_nonneg)
    then have "isFinite (parseFloat (toFixed (Fin x) d))" by (rule toFixed_finite)
    with K Fin q x show ?thesis by simp
  next
    case Infinity
    have "isFinite (parseFloat (toFixed (Fin 0) d))" by (rule toFixed_finite) simp
    with K Infinity show ?thesis by simp
  next
    case NaN
    with assms(2) show ?thesis by simp
  qed
qed

section \<open>The loop of the aggregation, field by field\<close>

lemma num_0: "num 0 = Fin 0"
  by (simp add: num_def)

lemma fold_accKills:
  "accKills (fold accumulate ms t) = fold (\<lambda>m x. jsadd x (num (kills m))) ms (accKills t)"
  by (induction ms arbitrary: t) (simp_all add: accumulate_def)

lemma fold_accDeaths:
  "accDeaths (fold accumulate ms t) = fold (\<lambda>m x. jsadd x (num (deaths m))) ms (accDeaths t)"
  by (induction ms arbitrary: t) (simp_all add: accumulate_def)

lemma fold_accAssists:
  "accAssists (fold accumulate ms t) = fold (\<lambda>m x. jsadd x (num (assists m))) ms (accAssists t)"
  by (induction ms arbitrary: t) (simp_all add: accumulate_def)

lemma fold_accDamage:
  "accDamage (fold accumulate ms t) = fold (\<lambda>m x. jsadd x (num (damage m))) ms (accDamage t)"
  by (induction ms arbitrary: t) (simp_all add: accumulate_def)

lemma fold_accRounds:
  "accRounds (fold accumulate ms t) =
     fold (\<lambda>m x. jsadd x (jsadd (num (roundsWon m)) (num (roundsLost m)))) ms (accRounds t)"
  by (induction ms arbitrary: t) (simp_all add: accumulate_def)

lemma fold_accWins:
  "accWins (fold accumulate ms t) =
     fold (\<lambda>m x. if outcome m = Win then jsadd x (Fin 1) else x) ms (accWins t)"
  by (induction ms arbitrary: t) (simp_all add: accumulate_def)

lemma fold_jsadd_num:
  "a + sum_list (map f ms) \<le> 2 ^ 53 \<Longrightarrow>
   fold (\<lambda>m x. jsadd x (num (f m))) ms (num a) = num (a + sum_list (map f ms))"
proof (induction ms arbitrary: a)
  case Nil
  then show ?case by simp
next
  case (Cons m ms)
  then have "a + f m \<le> 2 ^ 53" by simp
  then have "jsadd (num a) (num (f m)) = num (a + f m)" by (rule jsadd_num)
  with Cons show ?case by (simp add: add.assoc)
qed

lemma fold_jsadd_rounds:
  "a + sum_list (map (\<lambda>m. roundsWon m + roundsLost m) ms) \<le> 2 ^ 53 \<Longrightarrow>
   fold (\<lambda>m x. jsadd x (jsadd (num (roundsWon m)) (num (roundsLost m)))) ms (num a)
     = num (a + sum_list (map (\<lambda>m. roundsWon m + roundsLost m) ms))"
proof (induction ms arbitrary: a)
  case Nil
  then show ?case by simp
next
  case (Cons m ms)
  then have "roundsWon m + roundsLost m \<le> 2 ^ 53" "a + (roundsWon m + roundsLost m) \<le> 2 ^ 53"
    by simp_all
  then have "jsadd (num a) (jsadd (num (roundsWon m)) (num (roundsLost m)))
      = num (a + (roundsWon m + roundsLost m))"
    by (simp add: jsadd_num)
  with Cons show ?case by (simp add: add.assoc)
qed

lemma fold_wins:
  "a \<le> 2 ^ 53 \<Longrightarrow>
   fold (\<lambda>m x. if outcome m = Win then jsadd x (Fin 1) else x) ms (num a)
     = num (min (a + length (filter (\<lambda>m. outcome m = Win) ms)) (2 ^ 53))"
proof (induction ms arbitrary: a)
  case Nil
  then show ?case by (simp add: min_def)
next
  case (Cons m ms)
  show ?case
  proof (cases "outcome m = Win")
    case True
    have "min (a + 1) (2 ^ 53) \<le> (2 ^ 53 :: nat)" by simp
    from Cons.IH [OF this] True Cons.prems show ?thesis
      by (simp add: jsadd_one min_def)
  next
    case False
    with Cons show ?thesis by simp
  qed
qed

lemma fold_accOk:
  "accOk a \<Longrightarrow> accOk (fold (\<lambda>m x. jsadd x (num (f m))) ms a)"
  by (induction ms arbitrary: a) (simp_all add: jsadd_accOk)

lemma accKills_exact:
  assumes "sum_list (map kills ms) \<le> 2 ^ 53"
  shows "accKills (fold accumulate ms no_totals) = num (sum_list (map kills ms))"
proof -
  have "fold (\<lambda>m x. jsadd x (num (kills m))) ms (num 0) = num (0 + sum_list (map kills ms))"
    using assms by (intro fold_jsadd_num) simp
  then show ?thesis by (simp add: fold_accKills no_totals_def num_0)
qed

lemma accDeaths_exact:
  assumes "sum_list (map deaths ms) \<le> 2 ^ 53"
  shows "accDeaths (fold accumulate ms no_totals) = num (sum_list (map deaths ms))"
proof -
  have "fold (\<lambda>m x. jsadd x (num (deaths m))) ms (num 0) = num (0 + sum_list (map deaths ms))"
    using assms by (intro fold_jsadd_num) simp
  then show ?thesis by (simp add: fold_accDeaths no_totals_def num_0)
qed

lemma accAssists_exact:
  assumes "sum_list (map assists ms) \<le> 2 ^ 53"
  shows "accAssists (fold accumulate ms no_totals) = num (sum_list (map assists ms))"
proof -
  have "fold (\<lambda>m x. jsadd x (num (assists m))) ms (num 0) = num (0 + sum_list (map assists ms))"
    using assms by (intro fold_jsadd_num) simp
  then show ?thesis by (simp add: fold_accAssists no_totals_def num_0)
qed

lemma accDamage_exact:
  assumes "sum_list (map damage ms) \<le> 2 ^ 53"
  shows "accDamage (fold accumulate ms no_totals) = num (sum_list (map damage ms))"
proof -
  have "fold (\<lambda>m x. jsadd x (num (damage m))) ms (num 0) = num (0 + sum_list (map damage ms))"
    using assms by (intro fold_jsadd_num) simp
  then show ?thesis by (simp add: fold_accDamage no_totals_def num_0)
qed

lemma accRounds_exact:
  assumes "sum_list (map (\<lambda>m. roundsWon m + roundsLost m) ms) \<le> 2 ^ 53"
  shows "accRounds (fold accumulate ms no_totals)
    = num (sum_list (map (\<lambda>m. roundsWon m + roundsLost m) ms))"
proof -
  have "fold (\<lambda>m x. jsadd x (jsadd (num (roundsWon m)) (num (roundsLost m)))) ms (num 0)
      = num (0 + sum_list (map (\<lambda>m. roundsWon m + roundsLost m) ms))"
    using assms by (intro fold_jsadd_rounds) simp
  then show ?thesis by (simp add: fold_accRounds no_totals_def num_0)
qed

lemma accWins_saturating:
  "accWins (fold accumulate ms no_totals) = num (min (winCount ms) (2 ^ 53))"
proof -
  have "fold (\<lambda>m x. if outcome m = Win then jsadd x (Fin 1) else x) ms (num 0)
      = num (min (0 + length (filter (\<lambda>m. outcome m = Win) ms)) (2 ^ 53))"
    by (intro fold_wins) simp
  then show ?thesis by (simp add: fold_accWins no_totals_def num_0 winCount_def)
qed

lemma accKills_ok: "accOk (accKills (fold accumulate ms no_totals))"
proof -
  have "accOk (fold (\<lambda>m x. jsadd x (num (kills m))) ms (Fin 0))"
    by (rule fold_accOk) (simp add: maxDouble_pos)
  then show ?thesis by (simp add: fold_accKills no_totals_def)
qed

lemma accDeaths_ok: "accOk (accDeaths (fold accumulate ms no_totals))"
proof -
  have "accOk (fold (\<lambda>m x. jsadd x (num (deaths m))) ms (Fin 0))"
    by (rule fold_accOk) (simp add: maxDouble_pos)
  then show ?thesis by (simp add: fold_accDeaths no_totals_def)
qed

lemma sum_list_mset_cong:
  assumes "mset ms' = mset ms"
  shows "sum_list (map f ms') = (sum_list (map f ms) :: nat)"
proof -
  have "sum_mset (mset (map f ms')) = sum_mset (mset (map f ms))"
    using assms by simp
  then show ?thesis by (simp only: sum_mset_sum_list)
qed

lemma filter_length_mset_cong:
  assumes "mset ms' = mset ms"
  shows "length (filter P ms') = length (filter P ms)"
proof -
  have "mset (filter P ms') = mset (filter P ms)" using assms by simp
  then show ?thesis by (rule mset_eq_length)
qed

lemma exactTotals_mset:
  assumes "mset ms' = mset ms"
  shows "exactTotals ms' = exactTotals ms"
  by (simp add: exactTotals_def sum_list_mset_cong [OF assms])

lemma exactTotals_specExample: "exactTotals specExample"
  by (simp add: exactTotals_def specExample_def played_def)

lemma calculateUserStats_cong:
  assumes "length ms' = length ms"
    and "fold accumulate ms' no_totals = fold accumulate ms no_totals"
  shows "calculateUserStats ms' = calculateUserStats ms"
  using assms by (simp add: calculateUserStats_def)

lemma calculateUserStats_Nil:
  "calculateUserStats [] =
     \<lparr> kdRatio = Fin 0, damagePerRound = Fin 0, winPercentage = Fin 0,
       killsPerRound = Fin 0, wins = Fin 0, totalKills = Fin 0, totalDeaths = Fin 0,
       totalAssists = Fin 0, totalGames = Fin 0, totalRounds = Fin 0,
       totalDamage = Fin 0 \<rparr>"
  by (simp add: calculateUserStats_def)

lemma kdRatio_unfold:
  "kdRatio (calculateUserStats ms) =
     (if jsgt (totalDeaths (calculateUserStats ms)) (Fin 0)
      then parseFloat (toFixed (jsdiv (totalKills (calculateUserStats ms))
                                      (totalDeaths (calculateUserStats ms))) 2)
      else totalKills (calculateUserStats ms))"
  by (simp add: calculateUserStats_def Let_def)

lemma kdRatio_finite:
  assumes "isFinite (totalKills (calculateUserStats ms))"
  shows "isFinite (kdRatio (calculateUserStats ms))"
proof (cases "ms = []")
  case True
  then show ?thesis by (simp add: calculateUserStats_def)
next
  case False
  define K where "K = accKills (fold accumulate ms no_totals)"
  define D where "D = accDeaths (fold accumulate ms no_totals)"
  have K: "accOk K" and D: "accOk D" by (simp_all add: K_def D_def accKills_ok accDeaths_ok)
  have fin: "isFinite K" using assms False by (simp add: calculateUserStats_def Let_def K_def)
  have kd: "kdRatio (calculateUserStats ms)
      = (if jsgt D (Fin 0) then parseFloat (toFixed (jsdiv K D) 2) else K)"
    using False by (simp add: calculateUserStats_def Let_def K_def D_def)
  show ?thesis
  proof (cases "jsgt D (Fin 0)")
    case True
    with K D fin have "isFinite (parseFloat (toFixed (jsdiv K D) 2))" by (intro ratio_finite)
    with True kd show ?thesis by simp
  next
    case False
    with kd fin show ?thesis by simp
  qed
qed

lemma totalKills_doubleSum:
  "totalKills (calculateUserStats ms) = doubleSum (\<lambda>m. num (kills m)) ms"
  by (cases "ms = []")
     (simp_all add: calculateUserStats_def Let_def doubleSum_def fold_accKills no_totals_def)

lemma totalDeaths_doubleSum:
  "totalDeaths (calculateUserStats ms) = doubleSum (\<lambda>m. num (deaths m)) ms"
  by (cases "ms = []")
     (simp_all add: calculateUserStats_def Let_def doubleSum_def fold_accDeaths no_totals_def)

lemma totalAssists_doubleSum:
  "totalAssists (calculateUserStats ms) = doubleSum (\<lambda>m. num (assists m)) ms"
  by (cases "ms = []")
     (simp_all add: calculateUserStats_def Let_def doubleSum_def fold_accAssists no_totals_def)

lemma totalDamage_doubleSum:
  "totalDamage (calculateUserStats ms) = doubleSum (\<lambda>m. num (damage m)) ms"
  by (cases "ms = []")
     (simp_all add: calculateUserStats_def Let_def doubleSum_def fold_accDamage no_totals_def)

lemma totalRounds_doubleSum:
  "totalRounds (calculateUserStats ms)
     = doubleSum (\<lambda>m. jsadd (num (roundsWon m)) (num (roundsLost m))) ms"
  by (cases "ms = []")
     (simp_all add: calculateUserStats_def Let_def doubleSum_def fold_accRounds no_totals_def)

lemma doubleSum_exact:
  assumes "sum_list (map f ms) \<le> 2 ^ 53"
  shows "doubleSum (\<lambda>m. num (f m)) ms = num (sum_list (map f ms))"
proof -
  have "fold (\<lambda>m x. jsadd x (num (f m))) ms (num 0) = num (0 + sum_list (map f ms))"
    using assms by (intro fold_jsadd_num) simp
  then show ?thesis by (simp add: doubleSum_def num_0)
qed

lemma doubleSum_rounds_exact:
  assumes "sum_list (map (\<lambda>m. roundsWon m + roundsLost m) ms) \<le> 2 ^ 53"
  shows "doubleSum (\<lambda>m. jsadd (num (roundsWon m)) (num (roundsLost m))) ms
    = num (sum_list (map (\<lambda>m. roundsWon m + roundsLost m) ms))"
proof -
  have "fold (\<lambda>m x. jsadd x (jsadd (num (roundsWon m)) (num (roundsLost m)))) ms (num 0)
      = num (0 + sum_list (map (\<lambda>m. roundsWon m + roundsLost m) ms))"
    using assms by (intro fold_jsadd_rounds) simp
  then show ?thesis by (simp add: doubleSum_def num_0)
qed

lemma wins_saturating:
  "wins (calculateUserStats ms) = num (min (winCount ms) (2 ^ 53))"
  by (cases "ms = []")
     (simp_all add: calculateUserStats_def Let_def accWins_saturating winCount_def num_0)

lemma totalGames_length: "totalGames (calculateUserStats ms) = num (length ms)"
  by (cases "ms = []") (simp_all add: calculateUserStats_def Let_def num_0)

lemma winCount_le_length: "winCount ms \<le> length ms"
  by (simp add: winCount_def)

lemma wins_le_totalGames:
  "\<not> jsgt (wins (calculateUserStats ms)) (totalGames (calculateUserStats ms))"
proof -
  have "min (winCount ms) (2 ^ 53) \<le> length ms"
    using winCount_le_length [of ms] by simp
  then have "(of_nat (min (winCount ms) (2 ^ 53)) :: rat) \<le> of_nat (length ms)"
    by (simp only: of_nat_le_iff)
  then show ?thesis
    unfolding wins_saturating totalGames_length num_def by (simp only: jsgt.simps not_less)
qed

lemma per_round_unfold:
  "damagePerRound (calculateUserStats ms) =
     (if jsgt (totalRounds (calculateUserStats ms)) (Fin 0)
      then parseFloat (toFixed (jsdiv (totalDamage (calculateUserStats ms))
                                      (totalRounds (calculateUserStats ms))) 0)
      else Fin 0)"
  "killsPerRound (calculateUserStats ms) =
     (if jsgt (totalRounds (calculateUserStats ms)) (Fin 0)
      then parseFloat (toFixed (jsdiv (totalKills (calculateUserStats ms))
                                      (totalRounds (calculateUserStats ms))) 2)
      else Fin 0)"
  by (simp_all add: calculateUserStats_def Let_def)

lemma damagePerRound_rounded:
  assumes r0: "0 < sum_list (map (\<lambda>m. roundsWon m + roundsLost m) ms)"
    and r: "sum_list (map (\<lambda>m. roundsWon m + roundsLost m) ms) \<le> 2 ^ 53"
    and a: "sum_list (map damage ms) \<le> 2 ^ 53"
  shows "\<exists>n. damagePerRound (calculateUserStats ms) = Fin (of_int n) \<and>
           \<bar>of_int n - (of_nat (sum_list (map damage ms)) :: rat)
                / of_nat (sum_list (map (\<lambda>m. roundsWon m + roundsLost m) ms))\<bar>
           \<le> 1 / 2 + of_nat (sum_list (map damage ms))
                / of_nat (sum_list (map (\<lambda>m. roundsWon m + roundsLost m) ms)) / 2 ^ 53"
proof -
  define A where "A = sum_list (map damage ms)"
  define R where "R = sum_list (map (\<lambda>m. roundsWon m + roundsLost m) ms)"
  define q :: rat where "q = of_nat A / of_nat R"
  have R0: "0 < R" and R53: "R \<le> 2 ^ 53" and A53: "A \<le> 2 ^ 53"
    using r0 r a by (simp_all add: R_def A_def)
  note qr = quotient_range [OF R0 A53 R53, folded q_def]
  from round_to_decimals [OF qr, of 0]
  obtain n x where nx: "fl q = Fin x" "x \<le> 2 ^ 53" "toFixed (fl q) 0 = Decimal n 0" "0 \<le> n"
    "of_int n \<le> x * 10 ^ 0 + 1 / 2" "\<bar>of_int n / 10 ^ 0 - q\<bar> \<le> 1 / (2 * 10 ^ 0) + q / 2 ^ 53"
    by blast
  have "(of_int n :: rat) \<le> 2 ^ 53 + 1 / 2" using nx(2,5) by simp
  then have "(of_int n :: rat) < of_int (2 ^ 53 + 1)" by simp
  then have "n < 2 ^ 53 + 1" by (simp only: of_int_less_iff)
  then have "n \<le> 2 ^ 53" by simp
  then have "(of_int n :: rat) \<le> of_int (2 ^ 53)" by (simp only: of_int_le_iff)
  then have n53: "(of_int n :: rat) \<le> 2 ^ 53" by simp
  have "fl (of_int n) = Fin (of_int n)" using nx(4) n53 by (intro fl_exact) simp_all
  then have pf: "parseFloat (Decimal n 0) = Fin (of_int n)" by simp
  have tr: "totalRounds (calculateUserStats ms) = num R"
    unfolding totalRounds_doubleSum R_def using r by (rule doubleSum_rounds_exact)
  have td: "totalDamage (calculateUserStats ms) = num A"
    unfolding totalDamage_doubleSum A_def using a by (rule doubleSum_exact)
  have gt: "jsgt (num R) (Fin 0)" using R0 by (simp add: num_def)
  have dv: "jsdiv (num A) (num R) = fl q" using R0 by (simp add: num_def q_def)
  have "damagePerRound (calculateUserStats ms) = Fin (of_int n)"
    unfolding per_round_unfold(1) tr td using gt by (simp only: if_True dv nx(3) pf)
  moreover have "\<bar>of_int n - q\<bar> \<le> 1 / 2 + q / 2 ^ 53" using nx(6) by simp
  ultimately show ?thesis unfolding q_def A_def R_def by blast
qed

lemma killsPerRound_rounded:
  assumes r0: "0 < sum_list (map (\<lambda>m. roundsWon m + roundsLost m) ms)"
    and r: "sum_list (map (\<lambda>m. roundsWon m + roundsLost m) ms) \<le> 2 ^ 53"
    and a: "sum_list (map kills ms) \<le> 2 ^ 53"
  shows "\<exists>n. killsPerRound (calculateUserStats ms) = parseFloat (Decimal n 2) \<and>
           \<bar>of_int n / 100 - (of_nat (sum_list (map kills ms)) :: rat)
                / of_nat (sum_list (map (\<lambda>m. roundsWon m + roundsLost m) ms))\<bar>
           \<le> 1 / 200 + of_nat (sum_list (map kills ms))
                / of_nat (sum_list (map (\<lambda>m. roundsWon m + roundsLost m) ms)) / 2 ^ 53"
proof -
  define A where "A = sum_list (map kills ms)"
  define R where "R = sum_list (map (\<lambda>m. roundsWon m + roundsLost m) ms)"
  define q :: rat where "q = of_nat A / of_nat R"
  have R0: "0 < R" and R53: "R \<le> 2 ^ 53" and A53: "A \<le> 2 ^ 53"
    using r0 r a by (simp_all add: R_def A_def)
  note qr = quotient_range [OF R0 A53 R53, folded q_def]
  from round_to_decimals [OF qr, of 2]
  obtain n where nx: "toFixed (fl q) 2 = Decimal n 2"
    "\<bar>of_int n / 10 ^ 2 - q\<bar> \<le> 1 / (2 * 10 ^ 2) + q / 2 ^ 53"
    by blast
  have tr: "totalRounds (calculateUserStats ms) = num R"
    unfolding totalRounds_doubleSum R_def using r by (rule doubleSum_rounds_exact)
  have td: "totalKills (calculateUserStats ms) = num A"
    unfolding totalKills_doubleSum A_def using a by (rule doubleSum_exact)
  have gt: "jsgt (num R) (Fin 0)" using R0 by (simp add: num_def)
  have dv: "jsdiv (num A) (num R) = fl q" using R0 by (simp add: num_def q_def)
  have "killsPerRound (calculateUserStats ms) = parseFloat (Decimal n 2)"
    unfolding per_round_unfold(2) tr td using gt by (simp only: if_True dv nx(1))
  moreover have "\<bar>of_int n / 100 - q\<bar> \<le> 1 / 200 + q / 2 ^ 53" using nx(2) by simp
  ultimately show ?thesis unfolding q_def A_def R_def by blast
qed

lemma no_rounds_no_ratio:
  assumes "sum_list (map (\<lambda>m. roundsWon m + roundsLost m) ms) = 0"
  shows "damagePerRound (calculateUserStats ms) = Fin 0"
    and "killsPerRound (calculateUserStats ms) = Fin 0"
proof -
  have "sum_list (map (\<lambda>m. roundsWon m + roundsLost m) ms) \<le> 2 ^ 53" unfolding assms by simp
  then have "totalRounds (calculateUserStats ms)
      = num (sum_list (map (\<lambda>m. roundsWon m + roundsLost m) ms))"
    unfolding totalRounds_doubleSum by (rule doubleSum_rounds_exact)
  then have tr: "totalRounds (calculateUserStats ms) = Fin 0" unfolding assms by (simp only: num_0)
  show "damagePerRound (calculateUserStats ms) = Fin 0"
    unfolding per_round_unfold(1) tr by simp
  show "killsPerRound (calculateUserStats ms) = Fin 0"
    unfolding per_round_unfold(2) tr by simp
qed

lemma doubleSum_tenRounds:
  "doubleSum (\<lambda>m. jsadd (num (roundsWon m)) (num (roundsLost m))) [tenRounds] = Fin 10"
  "doubleSum (\<lambda>m. num (damage m)) [tenRounds] = Fin 100"
  "doubleSum (\<lambda>m. num (kills m)) [tenRounds] = Fin 7"
  by (simp_all add: doubleSum_def tenRounds_def played_def num_def fl_exact)

lemma spec_totals:
  "accumulate (specRecord2 m') (accumulate (specRecord1 m) no_totals) =
     \<lparr> accKills = Fin 23, accDeaths = Fin 22, accAssists = Fin 8, accDamage = Fin 5600,
       accRounds = Fin 25, accWins = Fin 1 \<rparr>"
  by (simp add: accumulate_def no_totals_def num_def specRecord1_def specRecord2_def fl_exact)

lemma kills_huge_first:
  "totalKills (calculateUserStats [hugeKills, oneKill, oneKill]) = Fin (2 ^ 53)"
  using fl_two53_plus1
  by (simp add: calculateUserStats_def Let_def accumulate_def no_totals_def num_def
      hugeKills_def oneKill_def played_def fl_exact)

lemma kills_huge_last:
  "totalKills (calculateUserStats [oneKill, oneKill, hugeKills]) = Fin (2 ^ 53 + 2)"
  using fl_two53_plus2
  by (simp add: calculateUserStats_def Let_def accumulate_def no_totals_def num_def
      hugeKills_def oneKill_def played_def fl_exact)

section \<open>The routes on the sample request\<close>

lemma resetUser_eq: "resetUser user = calculateUserStats []"
  by (simp add: resetUser_def calculateUserStats_Nil)

lemma find_remove1:
  "find P xs = Some x \<Longrightarrow> remove1 x xs \<noteq> xs"
  by (metis find_Some_iff length_remove1 nth_mem diff_less length_pos_if_in_set less_irrefl zero_less_one)

lemma handle_stats:
  "stats (snd (handle fails r s)) = stats s \<or>
   stats (snd (handle fails r s)) = Some (calculateUserStats (matches (snd (handle fails r s))))"
proof (cases r)
  case (AddMatch i b)
  then show ?thesis
    by (auto simp: addMatch_def findByIdAndUpdate_def Let_def split: option.splits if_splits)
next
  case (DeleteMatch i)
  then show ?thesis
    by (auto simp: deleteMatch_def findByIdAndUpdate_def Let_def split: option.splits if_splits)
next
  case ResetStats
  then show ?thesis
    by (auto simp: resetStats_def resetUser_eq Let_def split: option.splits if_splits)
qed

lemma newMatch_sample: "newMatch 7 sampleBody = Some sampleMatch"
  by (simp add: newMatch_def sampleBody_def sampleMatch_def enumMatchType_def enumOutcome_def)

lemma addMatch_updateFails:
  "handle updateFails (AddMatch 7 sampleBody) signedUp
     = (InternalError ''Error adding match'', staleStore)"
  by (simp add: addMatch_def newMatch_sample Let_def updateFails_def staleStore_def)
     (simp add: sampleBody_def signedUp_def)

lemma newMatch_second: "newMatch 8 sampleBody = Some secondMatch"
  by (simp add: newMatch_def sampleBody_def sampleMatch_def secondMatch_def enumMatchType_def
      enumOutcome_def)

lemma addMatch_heals:
  "handle noFailure (AddMatch 8 sampleBody) staleStore
     = (Created secondMatch (calculateUserStats [sampleMatch, secondMatch]), healedStore)"
  by (simp add: addMatch_def newMatch_second Let_def noFailure_def healedStore_def
      findByIdAndUpdate_def)
     (simp add: sampleBody_def staleStore_def signedUp_def sampleMatch_def)

lemma reachable_staleStore: "reachable staleStore"
proof -
  have "reachable (snd (handle updateFails (AddMatch 7 sampleBody) signedUp))"
    using reachable.start by (rule reachable.request)
  then show ?thesis by (simp only: addMatch_updateFails snd_conv)
qed

lemma handle_keeps_user:
  "stats s \<noteq> None \<Longrightarrow> stats (snd (handle fails r s)) \<noteq> None"
proof (cases r)
  case (AddMatch i b)
  then show "stats s \<noteq> None \<Longrightarrow> ?thesis"
    by (auto simp: addMatch_def findByIdAndUpdate_def Let_def split: option.splits if_splits)
next
  case (DeleteMatch i)
  then show "stats s \<noteq> None \<Longrightarrow> ?thesis"
    by (auto simp: deleteMatch_def findByIdAndUpdate_def Let_def split: option.splits if_splits)
next
  case ResetStats
  then show "stats s \<noteq> None \<Longrightarrow> ?thesis"
    by (auto simp: resetStats_def Let_def split: option.splits if_splits)
qed

lemma reachable_has_user: "reachable s \<Longrightarrow> stats s \<noteq> None"
  by (induction rule: reachable.induct) (simp_all add: signedUp_def handle_keeps_user)

lemma success_recomputes:
  assumes "stats s \<noteq> None" and "success (fst (handle fails r s))"
  shows "stats (snd (handle fails r s)) = Some (calculateUserStats (matches (snd (handle fails r s))))"
proof (cases r)
  case (AddMatch i b)
  with assms show ?thesis
    by (auto simp: addMatch_def findByIdAndUpdate_def Let_def split: option.splits if_splits)
next
  case (DeleteMatch i)
  with assms show ?thesis
    by (auto simp: deleteMatch_def findByIdAndUpdate_def Let_def split: option.splits if_splits)
next
  case ResetStats
  with assms show ?thesis
    by (auto simp: resetStats_def resetUser_eq Let_def split: option.splits if_splits)
qed

lemma untouched_keeps:
  assumes "matches (snd (handle fails r s)) = matches s"
    and "stats s = Some (calculateUserStats (matches s))"
  shows "stats (snd (handle fails r s)) = Some (calculateUserStats (matches (snd (handle fails r s))))"
  using handle_stats [of fails r s] assms by auto

lemma step_trichotomy:
  "success (fst (handle fails r s)) \<or> matches (snd (handle fails r s)) = matches s
   \<or> internalError (fst (handle fails r s))"
proof (cases r)
  case (AddMatch i b)
  then show ?thesis
    by (auto simp: addMatch_def findByIdAndUpdate_def Let_def split: option.splits if_splits)
next
  case (DeleteMatch i)
  then show ?thesis
    by (auto simp: deleteMatch_def findByIdAndUpdate_def Let_def split: option.splits if_splits)
next
  case ResetStats
  then show ?thesis
    by (auto simp: resetStats_def Let_def split: option.splits if_splits)
qed

lemma upToDate_reachable: "upToDate s \<Longrightarrow> reachable s"
  by (induction rule: upToDate.induct) (auto intro: reachable.intros)

text \<open>
  From a state in which the summary has kept up, a request leads to such a state
  again unless it changes the match set and is answered with an internal error.
\<close>

lemma upToDate_step:
  assumes "upToDate s"
  shows "upToDate (snd (handle fails r s)) \<or>
         (internalError (fst (handle fails r s)) \<and> matches (snd (handle fails r s)) \<noteq> matches s)"
  using step_trichotomy [of fails r s] assms
  by (auto intro: upToDate.answered upToDate.untouched upToDate_reachable)

section \<open>The stored summary is the aggregation of the matches (C1)\<close>

text \<open>
  C1, as amended. In every state that an account reaches through add-match,
  delete-match and reset-stats requests, failures included, the stored summary is the
  aggregation of the account's current matches, except in the states after a request
  that changed the match set and was answered with an internal error, up to the next
  request answered with success: that request recomputes the summary from the matches
  and re-establishes the equality from any state.
\<close>

theorem summary_is_aggregate_unless_failed:
  "upToDate s \<Longrightarrow> stats s = Some (calculateUserStats (matches s))"
proof (induction rule: upToDate.induct)
  case fresh
  show ?case by (simp add: signedUp_def calculateUserStats_Nil)
next
  case (answered s fails r)
  from answered(1) have "stats s \<noteq> None" by (rule reachable_has_user)
  then show ?case using answered(2) by (rule success_recomputes)
next
  case (untouched s fails r)
  from untouched(2) untouched(3) show ?case by (rule untouched_keeps)
qed

text \<open>
  The amended claim at the account that has added a second match after the request
  that failed: the summary is the aggregation of both matches.
\<close>

theorem summary_is_aggregate_unless_failed_witness:
  "upToDate healedStore \<and>
   stats healedStore = Some (calculateUserStats (matches healedStore))"
proof -
  have "success (fst (handle noFailure (AddMatch 8 sampleBody) staleStore))"
    by (simp only: addMatch_heals fst_conv success.simps)
  with reachable_staleStore
  have "upToDate (snd (handle noFailure (AddMatch 8 sampleBody) staleStore))"
    by (rule upToDate.answered)
  then have u: "upToDate healedStore" by (simp only: addMatch_heals snd_conv)
  from summary_is_aggregate_unless_failed [OF u] u show ?thesis by simp
qed

text \<open>
  C1 as stated, for every reachable state, fails: when \<open>User.findByIdAndUpdate\<close> throws
  after \<open>match.save()\<close> has stored the sample match, the account holds one match and
  still the all-zero summary, which is not the aggregation of that match.
\<close>

theorem stale_summary_reachable:
  "reachable staleStore \<and>
   stats staleStore \<noteq> Some (calculateUserStats (matches staleStore))"
proof
  show "reachable staleStore" by (rule reachable_staleStore)
  have "totalGames (calculateUserStats [sampleMatch]) = Fin 1"
    by (simp add: calculateUserStats_def Let_def num_def)
  moreover have "totalGames (the (stats staleStore)) = Fin 0"
    by (simp add: staleStore_def signedUp_def)
  ultimately show "stats staleStore \<noteq> Some (calculateUserStats (matches staleStore))"
    by (auto simp: staleStore_def)
qed

section \<open>The kill/death ratio (C2)\<close>

text \<open>
  C2, as amended. For every record set, \<open>kdRatio\<close> is \<open>totalKills / totalDeaths\<close> rounded
  by \<open>toFixed(2)\<close> when \<open>totalDeaths > 0\<close>, and the raw \<open>totalKills\<close> otherwise; with
  \<open>totalDeaths = 0\<close> it is \<open>totalKills\<close> exactly, which is the sum of the kills when that
  sum is at most \<open>2^53\<close>. It is a finite number, neither \<open>Infinity\<close> nor \<open>NaN\<close>, whenever
  the kill total is finite, that is, has not overflowed the range of a double.
\<close>

theorem kdRatio_policy:
  "kdRatio (calculateUserStats ms) =
     (if jsgt (totalDeaths (calculateUserStats ms)) (Fin 0)
      then parseFloat (toFixed (jsdiv (totalKills (calculateUserStats ms))
                                      (totalDeaths (calculateUserStats ms))) 2)
      else totalKills (calculateUserStats ms)) \<and>
   (totalDeaths (calculateUserStats ms) = Fin 0 \<longrightarrow>
      kdRatio (calculateUserStats ms) = totalKills (calculateUserStats ms)) \<and>
   (sum_list (map deaths ms) = 0 \<and> sum_list (map kills ms) \<le> 2 ^ 53 \<longrightarrow>
      kdRatio (calculateUserStats ms) = num (sum_list (map kills ms))) \<and>
   (isFinite (totalKills (calculateUserStats ms)) \<longrightarrow>
      isFinite (kdRatio (calculateUserStats ms)))"
proof (intro conjI impI)
  show "kdRatio (calculateUserStats ms) =
     (if jsgt (totalDeaths (calculateUserStats ms)) (Fin 0)
      then parseFloat (toFixed (jsdiv (totalKills (calculateUserStats ms))
                                      (totalDeaths (calculateUserStats ms))) 2)
      else totalKills (calculateUserStats ms))"
    by (rule kdRatio_unfold)
next
  assume "totalDeaths (calculateUserStats ms) = Fin 0"
  then show "kdRatio (calculateUserStats ms) = totalKills (calculateUserStats ms)"
    using kdRatio_unfold [of ms] by simp
next
  assume a: "sum_list (map deaths ms) = 0 \<and> sum_list (map kills ms) \<le> 2 ^ 53"
  show "kdRatio (calculateUserStats ms) = num (sum_list (map kills ms))"
  proof (cases "ms = []")
    case True
    then show ?thesis by (simp add: calculateUserStats_def num_0)
  next
    case False
    have d0: "sum_list (map deaths ms) = 0" using a by (rule conjunct1)
    have d: "sum_list (map deaths ms) \<le> 2 ^ 53" unfolding d0 by simp
    have k: "sum_list (map kills ms) \<le> 2 ^ 53" using a by (rule conjunct2)
    have "accDeaths (fold accumulate ms no_totals) = Fin 0"
      unfolding accDeaths_exact [OF d] d0 by (rule num_0)
    then show ?thesis
      using False
      by (simp add: calculateUserStats_def Let_def accKills_exact [OF k])
  qed
next
  assume "isFinite (totalKills (calculateUserStats ms))"
  then show "isFinite (kdRatio (calculateUserStats ms))" by (rule kdRatio_finite)
qed

text \<open>
  The amended claim at a single match with 5 kills and no death: \<open>kdRatio\<close> is \<open>5\<close>.
\<close>

theorem kdRatio_policy_witness:
  "totalDeaths (calculateUserStats [fiveKills]) = Fin 0 \<and>
   sum_list (map deaths [fiveKills]) = 0 \<and>
   sum_list (map kills [fiveKills]) \<le> 2 ^ 53 \<and>
   isFinite (totalKills (calculateUserStats [fiveKills])) \<and>
   kdRatio (calculateUserStats [fiveKills]) = totalKills (calculateUserStats [fiveKills]) \<and>
   kdRatio (calculateUserStats [fiveKills]) = Fin 5 \<and>
   isFinite (kdRatio (calculateUserStats [fiveKills]))"
proof -
  have d: "totalDeaths (calculateUserStats [fiveKills]) = Fin 0"
    by (simp add: calculateUserStats_def Let_def accumulate_def no_totals_def num_def
        fiveKills_def played_def fl_exact)
  have k: "totalKills (calculateUserStats [fiveKills]) = Fin 5"
    by (simp add: calculateUserStats_def Let_def accumulate_def no_totals_def num_def
        fiveKills_def played_def fl_exact)
  have s: "sum_list (map deaths [fiveKills]) = 0" "sum_list (map kills [fiveKills]) \<le> 2 ^ 53"
    by (simp_all add: fiveKills_def played_def)
  have f: "isFinite (totalKills (calculateUserStats [fiveKills]))" by (simp add: k)
  from kdRatio_policy [of "[fiveKills]"] d k s f show ?thesis by simp
qed

text \<open>
  C2 as stated, never \<open>Infinity\<close> or \<open>NaN\<close>, fails: two matches of \<open>2^1023\<close> kills and no
  death give the kill total \<open>Infinity\<close>, which is then the ratio; with \<open>2^1023\<close> deaths
  each as well, the ratio is \<open>Infinity / Infinity\<close>, which is \<open>NaN\<close>.
\<close>

theorem kdRatio_infinite_or_nan:
  "kdRatio (calculateUserStats [overflowKills, overflowKills]) = Infinity \<and>
   kdRatio (calculateUserStats [overflowBoth, overflowBoth]) = NaN"
  using fl_two1023 fl_two1024
  by (simp add: calculateUserStats_def Let_def accumulate_def no_totals_def num_def
      overflowKills_def overflowBoth_def played_def fl_zero)

section \<open>The aggregation on the empty match set (C3)\<close>

text \<open>
  C3. For the empty record set the aggregation returns the all-zero summary: each of
  the eleven fields \<open>kdRatio\<close>, \<open>damagePerRound\<close>, \<open>winPercentage\<close>, \<open>killsPerRound\<close>,
  \<open>wins\<close>, \<open>kills\<close>, \<open>deaths\<close>, \<open>assists\<close>, \<open>totalGames\<close>, \<open>totalRounds\<close> and
  \<open>totalDamage\<close> is the number \<open>0\<close>; the four ratios are the finite number \<open>0\<close>, not
  \<open>NaN\<close> and not a missing value.
\<close>

theorem empty_summary_all_zero:
  "kdRatio (calculateUserStats []) = Fin 0 \<and>
   damagePerRound (calculateUserStats []) = Fin 0 \<and>
   winPercentage (calculateUserStats []) = Fin 0 \<and>
   killsPerRound (calculateUserStats []) = Fin 0 \<and>
   wins (calculateUserStats []) = Fin 0 \<and>
   totalKills (calculateUserStats []) = Fin 0 \<and>
   totalDeaths (calculateUserStats []) = Fin 0 \<and>
   totalAssists (calculateUserStats []) = Fin 0 \<and>
   totalGames (calculateUserStats []) = Fin 0 \<and>
   totalRounds (calculateUserStats []) = Fin 0 \<and>
   totalDamage (calculateUserStats []) = Fin 0 \<and>
   kdRatio (calculateUserStats []) \<noteq> NaN \<and>
   damagePerRound (calculateUserStats []) \<noteq> NaN \<and>
   winPercentage (calculateUserStats []) \<noteq> NaN \<and>
   killsPerRound (calculateUserStats []) \<noteq> NaN"
  by (simp add: calculateUserStats_def)

section \<open>The totals (C4)\<close>

text \<open>
  C4, as amended. For every record set the aggregation returns \<open>totalGames\<close> as the
  number of records and \<open>wins\<close> at most \<open>totalGames\<close>, and each of \<open>kills\<close>, \<open>deaths\<close>,
  \<open>assists\<close>, \<open>totalDamage\<close> and \<open>totalRounds\<close> as the sum of its field taken left to
  right in double arithmetic; a total is the exact sum \<open>\<Sum>kills\<close>, \<open>\<Sum>deaths\<close>, \<open>\<Sum>assists\<close>,
  \<open>\<Sum>damage\<close>, \<open>\<Sum>(roundsWon + roundsLost)\<close> whenever that sum is at most \<open>2^53\<close>, and
  \<open>wins\<close> is the number of records whose outcome is \<open>Win\<close> whenever that number is at
  most \<open>2^53\<close>, which it is in every array.
\<close>

theorem totals_are_sums:
  "totalKills (calculateUserStats ms) = doubleSum (\<lambda>m. num (kills m)) ms \<and>
   totalDeaths (calculateUserStats ms) = doubleSum (\<lambda>m. num (deaths m)) ms \<and>
   totalAssists (calculateUserStats ms) = doubleSum (\<lambda>m. num (assists m)) ms \<and>
   totalDamage (calculateUserStats ms) = doubleSum (\<lambda>m. num (damage m)) ms \<and>
   totalRounds (calculateUserStats ms)
     = doubleSum (\<lambda>m. jsadd (num (roundsWon m)) (num (roundsLost m))) ms \<and>
   (sum_list (map kills ms) \<le> 2 ^ 53 \<longrightarrow>
      totalKills (calculateUserStats ms) = num (sum_list (map kills ms))) \<and>
   (sum_list (map deaths ms) \<le> 2 ^ 53 \<longrightarrow>
      totalDeaths (calculateUserStats ms) = num (sum_list (map deaths ms))) \<and>
   (sum_list (map assists ms) \<le> 2 ^ 53 \<longrightarrow>
      totalAssists (calculateUserStats ms) = num (sum_list (map assists ms))) \<and>
   (sum_list (map damage ms) \<le> 2 ^ 53 \<longrightarrow>
      totalDamage (calculateUserStats ms) = num (sum_list (map damage ms))) \<and>
   (sum_list (map (\<lambda>m. roundsWon m + roundsLost m) ms) \<le> 2 ^ 53 \<longrightarrow>
      totalRounds (calculateUserStats ms)
        = num (sum_list (map (\<lambda>m. roundsWon m + roundsLost m) ms))) \<and>
   (winCount ms \<le> 2 ^ 53 \<longrightarrow> wins (calculateUserStats ms) = num (winCount ms)) \<and>
   wins (calculateUserStats ms) = num (min (winCount ms) (2 ^ 53)) \<and>
   totalGames (calculateUserStats ms) = num (length ms) \<and>
   winCount ms \<le> length ms \<and>
   \<not> jsgt (wins (calculateUserStats ms)) (totalGames (calculateUserStats ms))"
proof (intro conjI impI)
  show "totalKills (calculateUserStats ms) = doubleSum (\<lambda>m. num (kills m)) ms"
    by (rule totalKills_doubleSum)
  show "totalDeaths (calculateUserStats ms) = doubleSum (\<lambda>m. num (deaths m)) ms"
    by (rule totalDeaths_doubleSum)
  show "totalAssists (calculateUserStats ms) = doubleSum (\<lambda>m. num (assists m)) ms"
    by (rule totalAssists_doubleSum)
  show "totalDamage (calculateUserStats ms) = doubleSum (\<lambda>m. num (damage m)) ms"
    by (rule totalDamage_doubleSum)
  show "totalRounds (calculateUserStats ms)
     = doubleSum (\<lambda>m. jsadd (num (roundsWon m)) (num (roundsLost m))) ms"
    by (rule totalRounds_doubleSum)
  show "totalKills (calculateUserStats ms) = num (sum_list (map kills ms))"
    if "sum_list (map kills ms) \<le> 2 ^ 53"
    unfolding totalKills_doubleSum using that by (rule doubleSum_exact)
  show "totalDeaths (calculateUserStats ms) = num (sum_list (map deaths ms))"
    if "sum_list (map deaths ms) \<le> 2 ^ 53"
    unfolding totalDeaths_doubleSum using that by (rule doubleSum_exact)
  show "totalAssists (calculateUserStats ms) = num (sum_list (map assists ms))"
    if "sum_list (map assists ms) \<le> 2 ^ 53"
    unfolding totalAssists_doubleSum using that by (rule doubleSum_exact)
  show "totalDamage (calculateUserStats ms) = num (sum_list (map damage ms))"
    if "sum_list (map damage ms) \<le> 2 ^ 53"
    unfolding totalDamage_doubleSum using that by (rule doubleSum_exact)
  show "totalRounds (calculateUserStats ms)
        = num (sum_list (map (\<lambda>m. roundsWon m + roundsLost m) ms))"
    if "sum_list (map (\<lambda>m. roundsWon m + roundsLost m) ms) \<le> 2 ^ 53"
    unfolding totalRounds_doubleSum using that by (rule doubleSum_rounds_exact)
  show "wins (calculateUserStats ms) = num (winCount ms)" if "winCount ms \<le> 2 ^ 53"
    unfolding wins_saturating using that by simp
  show "wins (calculateUserStats ms) = num (min (winCount ms) (2 ^ 53))"
    by (rule wins_saturating)
  show "totalGames (calculateUserStats ms) = num (length ms)" by (rule totalGames_length)
  show "winCount ms \<le> length ms" by (rule winCount_le_length)
  show "\<not> jsgt (wins (calculateUserStats ms)) (totalGames (calculateUserStats ms))"
    by (rule wins_le_totalGames)
qed

text \<open>
  The amended claim at the two sample matches of the specification's example.
\<close>

theorem totals_are_sums_witness:
  "sum_list (map kills specExample) \<le> 2 ^ 53 \<and>
   sum_list (map deaths specExample) \<le> 2 ^ 53 \<and>
   sum_list (map assists specExample) \<le> 2 ^ 53 \<and>
   sum_list (map damage specExample) \<le> 2 ^ 53 \<and>
   sum_list (map (\<lambda>m. roundsWon m + roundsLost m) specExample) \<le> 2 ^ 53 \<and>
   winCount specExample \<le> 2 ^ 53 \<and>
   totalKills (calculateUserStats specExample) = Fin 23 \<and>
   totalDeaths (calculateUserStats specExample) = Fin 22 \<and>
   totalAssists (calculateUserStats specExample) = Fin 8 \<and>
   totalDamage (calculateUserStats specExample) = Fin 5600 \<and>
   totalRounds (calculateUserStats specExample) = Fin 25 \<and>
   wins (calculateUserStats specExample) = Fin 1 \<and>
   totalGames (calculateUserStats specExample) = Fin 2"
proof -
  have v: "sum_list (map kills specExample) = 23" "sum_list (map deaths specExample) = 22"
    "sum_list (map assists specExample) = 8" "sum_list (map damage specExample) = 5600"
    "sum_list (map (\<lambda>m. roundsWon m + roundsLost m) specExample) = 25"
    "winCount specExample = 1" "length specExample = 2"
    by (simp_all add: specExample_def played_def winCount_def)
  have h: "sum_list (map kills specExample) \<le> 2 ^ 53"
    "sum_list (map deaths specExample) \<le> 2 ^ 53"
    "sum_list (map assists specExample) \<le> 2 ^ 53"
    "sum_list (map damage specExample) \<le> 2 ^ 53"
    "sum_list (map (\<lambda>m. roundsWon m + roundsLost m) specExample) \<le> 2 ^ 53"
    "winCount specExample \<le> 2 ^ 53"
    unfolding v by simp_all
  note t = totals_are_sums [of specExample]
  from t h(1) have "totalKills (calculateUserStats specExample) = num (sum_list (map kills specExample))"
    by blast
  then have c1: "totalKills (calculateUserStats specExample) = Fin 23" unfolding v by (simp add: num_def)
  from t h(2) have "totalDeaths (calculateUserStats specExample) = num (sum_list (map deaths specExample))"
    by blast
  then have c2: "totalDeaths (calculateUserStats specExample) = Fin 22" unfolding v by (simp add: num_def)
  from t h(3) have "totalAssists (calculateUserStats specExample) = num (sum_list (map assists specExample))"
    by blast
  then have c3: "totalAssists (calculateUserStats specExample) = Fin 8" unfolding v by (simp add: num_def)
  from t h(4) have "totalDamage (calculateUserStats specExample) = num (sum_list (map damage specExample))"
    by blast
  then have c4: "totalDamage (calculateUserStats specExample) = Fin 5600" unfolding v by (simp add: num_def)
  from t h(5) have "totalRounds (calculateUserStats specExample)
      = num (sum_list (map (\<lambda>m. roundsWon m + roundsLost m) specExample))"
    by blast
  then have c5: "totalRounds (calculateUserStats specExample) = Fin 25" unfolding v by (simp add: num_def)
  from t h(6) have "wins (calculateUserStats specExample) = num (winCount specExample)"
    by blast
  then have c6: "wins (calculateUserStats specExample) = Fin 1" unfolding v by (simp add: num_def)
  from t have "totalGames (calculateUserStats specExample) = num (length specExample)"
    by blast
  then have c7: "totalGames (calculateUserStats specExample) = Fin 2" unfolding v by (simp add: num_def)
  from h c1 c2 c3 c4 c5 c6 c7 show ?thesis by blast
qed

text \<open>
  C4 as stated, for every non-empty record set, fails: for a match of \<open>2^53\<close> kills
  followed by a match of one kill, the sum of the kills is \<open>2^53 + 1\<close>, which is not a
  double, and the loop returns \<open>2^53\<close>.
\<close>

theorem kills_total_not_the_sum:
  "[hugeKills, oneKill] \<noteq> [] \<and>
   sum_list (map kills [hugeKills, oneKill]) = 2 ^ 53 + 1 \<and>
   totalKills (calculateUserStats [hugeKills, oneKill]) = num (2 ^ 53) \<and>
   totalKills (calculateUserStats [hugeKills, oneKill])
     \<noteq> num (sum_list (map kills [hugeKills, oneKill]))"
  using fl_two53_plus1
  by (simp add: calculateUserStats_def Let_def accumulate_def no_totals_def num_def
      hugeKills_def oneKill_def played_def fl_exact)

section \<open>The per-round ratios (C5)\<close>

text \<open>
  C5. For every record set, \<open>damagePerRound\<close> is \<open>totalDamage / totalRounds\<close> rounded by
  \<open>toFixed(0)\<close> when \<open>totalRounds > 0\<close> and \<open>0\<close> otherwise, and \<open>killsPerRound\<close> is
  \<open>totalKills / totalRounds\<close> rounded by \<open>toFixed(2)\<close> when \<open>totalRounds > 0\<close> and \<open>0\<close>
  otherwise, the totals being the sums of the records' fields as the loop takes them;
  the rounding is part of the value that the aggregation returns. With no rounds
  played both are \<open>0\<close>. While the sums are at most \<open>2^53\<close>, \<open>damagePerRound\<close> is an integer
  within \<open>1/2\<close> of \<open>\<Sum>damage / \<Sum>rounds\<close>, and \<open>killsPerRound\<close> is the double of a numeral of
  two decimals within \<open>1/200\<close> of \<open>\<Sum>kills / \<Sum>rounds\<close>, each up to the relative error
  \<open>2^-53\<close> of the division.
\<close>

theorem per_round_ratios:
  "damagePerRound (calculateUserStats ms) =
     (if jsgt (doubleSum (\<lambda>m. jsadd (num (roundsWon m)) (num (roundsLost m))) ms) (Fin 0)
      then parseFloat (toFixed
             (jsdiv (doubleSum (\<lambda>m. num (damage m)) ms)
                    (doubleSum (\<lambda>m. jsadd (num (roundsWon m)) (num (roundsLost m))) ms)) 0)
      else Fin 0) \<and>
   killsPerRound (calculateUserStats ms) =
     (if jsgt (doubleSum (\<lambda>m. jsadd (num (roundsWon m)) (num (roundsLost m))) ms) (Fin 0)
      then parseFloat (toFixed
             (jsdiv (doubleSum (\<lambda>m. num (kills m)) ms)
                    (doubleSum (\<lambda>m. jsadd (num (roundsWon m)) (num (roundsLost m))) ms)) 2)
      else Fin 0) \<and>
   (sum_list (map (\<lambda>m. roundsWon m + roundsLost m) ms) = 0 \<longrightarrow>
      damagePerRound (calculateUserStats ms) = Fin 0 \<and>
      killsPerRound (calculateUserStats ms) = Fin 0) \<and>
   (0 < sum_list (map (\<lambda>m. roundsWon m + roundsLost m) ms) \<and>
    sum_list (map (\<lambda>m. roundsWon m + roundsLost m) ms) \<le> 2 ^ 53 \<and>
    sum_list (map damage ms) \<le> 2 ^ 53 \<longrightarrow>
      (\<exists>n. damagePerRound (calculateUserStats ms) = Fin (of_int n) \<and>
           \<bar>of_int n - (of_nat (sum_list (map damage ms)) :: rat)
                / of_nat (sum_list (map (\<lambda>m. roundsWon m + roundsLost m) ms))\<bar>
           \<le> 1 / 2 + of_nat (sum_list (map damage ms))
                / of_nat (sum_list (map (\<lambda>m. roundsWon m + roundsLost m) ms)) / 2 ^ 53)) \<and>
   (0 < sum_list (map (\<lambda>m. roundsWon m + roundsLost m) ms) \<and>
    sum_list (map (\<lambda>m. roundsWon m + roundsLost m) ms) \<le> 2 ^ 53 \<and>
    sum_list (map kills ms) \<le> 2 ^ 53 \<longrightarrow>
      (\<exists>n. killsPerRound (calculateUserStats ms) = parseFloat (Decimal n 2) \<and>
           \<bar>of_int n / 100 - (of_nat (sum_list (map kills ms)) :: rat)
                / of_nat (sum_list (map (\<lambda>m. roundsWon m + roundsLost m) ms))\<bar>
           \<le> 1 / 200 + of_nat (sum_list (map kills ms))
                / of_nat (sum_list (map (\<lambda>m. roundsWon m + roundsLost m) ms)) / 2 ^ 53))"
proof (intro conjI impI)
  show "damagePerRound (calculateUserStats ms) =
     (if jsgt (doubleSum (\<lambda>m. jsadd (num (roundsWon m)) (num (roundsLost m))) ms) (Fin 0)
      then parseFloat (toFixed
             (jsdiv (doubleSum (\<lambda>m. num (damage m)) ms)
                    (doubleSum (\<lambda>m. jsadd (num (roundsWon m)) (num (roundsLost m))) ms)) 0)
      else Fin 0)"
    using per_round_unfold(1) [of ms]
    by (simp only: totalRounds_doubleSum totalDamage_doubleSum)
  show "killsPerRound (calculateUserStats ms) =
     (if jsgt (doubleSum (\<lambda>m. jsadd (num (roundsWon m)) (num (roundsLost m))) ms) (Fin 0)
      then parseFloat (toFixed
             (jsdiv (doubleSum (\<lambda>m. num (kills m)) ms)
                    (doubleSum (\<lambda>m. jsadd (num (roundsWon m)) (num (roundsLost m))) ms)) 2)
      else Fin 0)"
    using per_round_unfold(2) [of ms]
    by (simp only: totalRounds_doubleSum totalKills_doubleSum)
  show "damagePerRound (calculateUserStats ms) = Fin 0"
    if "sum_list (map (\<lambda>m. roundsWon m + roundsLost m) ms) = 0"
    using that by (rule no_rounds_no_ratio(1))
  show "killsPerRound (calculateUserStats ms) = Fin 0"
    if "sum_list (map (\<lambda>m. roundsWon m + roundsLost m) ms) = 0"
    using that by (rule no_rounds_no_ratio(2))
  show "\<exists>n. damagePerRound (calculateUserStats ms) = Fin (of_int n) \<and>
           \<bar>of_int n - (of_nat (sum_list (map damage ms)) :: rat)
                / of_nat (sum_list (map (\<lambda>m. roundsWon m + roundsLost m) ms))\<bar>
           \<le> 1 / 2 + of_nat (sum_list (map damage ms))
                / of_nat (sum_list (map (\<lambda>m. roundsWon m + roundsLost m) ms)) / 2 ^ 53"
    if "0 < sum_list (map (\<lambda>m. roundsWon m + roundsLost m) ms) \<and>
        sum_list (map (\<lambda>m. roundsWon m + roundsLost m) ms) \<le> 2 ^ 53 \<and>
        sum_list (map damage ms) \<le> 2 ^ 53"
    using that by (intro damagePerRound_rounded) blast+
  show "\<exists>n. killsPerRound (calculateUserStats ms) = parseFloat (Decimal n 2) \<and>
           \<bar>of_int n / 100 - (of_nat (sum_list (map kills ms)) :: rat)
                / of_nat (sum_list (map (\<lambda>m. roundsWon m + roundsLost m) ms))\<bar>
           \<le> 1 / 200 + of_nat (sum_list (map kills ms))
                / of_nat (sum_list (map (\<lambda>m. roundsWon m + roundsLost m) ms)) / 2 ^ 53"
    if "0 < sum_list (map (\<lambda>m. roundsWon m + roundsLost m) ms) \<and>
        sum_list (map (\<lambda>m. roundsWon m + roundsLost m) ms) \<le> 2 ^ 53 \<and>
        sum_list (map kills ms) \<le> 2 ^ 53"
    using that by (intro killsPerRound_rounded) blast+
qed

text \<open>
  The claim at a match without rounds, where both ratios are \<open>0\<close>, and at a match of
  10 rounds, 100 damage and 7 kills, where they are \<open>10\<close> and \<open>0.70\<close>.
\<close>

theorem per_round_ratios_witness:
  "sum_list (map (\<lambda>m. roundsWon m + roundsLost m) [oneKill]) = 0 \<and>
   damagePerRound (calculateUserStats [oneKill]) = Fin 0 \<and>
   killsPerRound (calculateUserStats [oneKill]) = Fin 0 \<and>
   0 < sum_list (map (\<lambda>m. roundsWon m + roundsLost m) [tenRounds]) \<and>
   sum_list (map (\<lambda>m. roundsWon m + roundsLost m) [tenRounds]) \<le> 2 ^ 53 \<and>
   sum_list (map damage [tenRounds]) \<le> 2 ^ 53 \<and>
   sum_list (map kills [tenRounds]) \<le> 2 ^ 53 \<and>
   damagePerRound (calculateUserStats [tenRounds]) = Fin 10 \<and>
   killsPerRound (calculateUserStats [tenRounds]) = parseFloat (Decimal 70 2) \<and>
   (\<exists>n. damagePerRound (calculateUserStats [tenRounds]) = Fin (of_int n) \<and>
        \<bar>of_int n - (of_nat (sum_list (map damage [tenRounds])) :: rat)
             / of_nat (sum_list (map (\<lambda>m. roundsWon m + roundsLost m) [tenRounds]))\<bar>
        \<le> 1 / 2 + of_nat (sum_list (map damage [tenRounds]))
             / of_nat (sum_list (map (\<lambda>m. roundsWon m + roundsLost m) [tenRounds])) / 2 ^ 53) \<and>
   (\<exists>n. killsPerRound (calculateUserStats [tenRounds]) = parseFloat (Decimal n 2) \<and>
        \<bar>of_int n / 100 - (of_nat (sum_list (map kills [tenRounds])) :: rat)
             / of_nat (sum_list (map (\<lambda>m. roundsWon m + roundsLost m) [tenRounds]))\<bar>
        \<le> 1 / 200 + of_nat (sum_list (map kills [tenRounds]))
             / of_nat (sum_list (map (\<lambda>m. roundsWon m + roundsLost m) [tenRounds])) / 2 ^ 53)"
proof -
  have z: "sum_list (map (\<lambda>m. roundsWon m + roundsLost m) [oneKill]) = 0"
    by (simp add: oneKill_def played_def)
  have h: "0 < sum_list (map (\<lambda>m. roundsWon m + roundsLost m) [tenRounds])"
    "sum_list (map (\<lambda>m. roundsWon m + roundsLost m) [tenRounds]) \<le> 2 ^ 53"
    "sum_list (map damage [tenRounds]) \<le> 2 ^ 53"
    "sum_list (map kills [tenRounds]) \<le> 2 ^ 53"
    by (simp_all add: tenRounds_def played_def)
  note one = per_round_ratios [of "[oneKill]"]
  note ten = per_round_ratios [of "[tenRounds]"]
  from one z have o: "damagePerRound (calculateUserStats [oneKill]) = Fin 0"
    "killsPerRound (calculateUserStats [oneKill]) = Fin 0" by blast+
  from ten have "damagePerRound (calculateUserStats [tenRounds]) =
     (if jsgt (doubleSum (\<lambda>m. jsadd (num (roundsWon m)) (num (roundsLost m))) [tenRounds]) (Fin 0)
      then parseFloat (toFixed
             (jsdiv (doubleSum (\<lambda>m. num (damage m)) [tenRounds])
                    (doubleSum (\<lambda>m. jsadd (num (roundsWon m)) (num (roundsLost m))) [tenRounds])) 0)
      else Fin 0)" by blast
  then have d: "damagePerRound (calculateUserStats [tenRounds]) = Fin 10"
    unfolding doubleSum_tenRounds by (simp add: fl_exact toFixed_ten del: toFixed.simps)
  from ten have "killsPerRound (calculateUserStats [tenRounds]) =
     (if jsgt (doubleSum (\<lambda>m. jsadd (num (roundsWon m)) (num (roundsLost m))) [tenRounds]) (Fin 0)
      then parseFloat (toFixed
             (jsdiv (doubleSum (\<lambda>m. num (kills m)) [tenRounds])
                    (doubleSum (\<lambda>m. jsadd (num (roundsWon m)) (num (roundsLost m))) [tenRounds])) 2)
      else Fin 0)" by blast
  then have k: "killsPerRound (calculateUserStats [tenRounds]) = parseFloat (Decimal 70 2)"
    unfolding doubleSum_tenRounds by (simp add: fl_7_10 toFixed_seventy del: toFixed.simps)
  from ten h have e1: "\<exists>n. damagePerRound (calculateUserStats [tenRounds]) = Fin (of_int n) \<and>
        \<bar>of_int n - (of_nat (sum_list (map damage [tenRounds])) :: rat)
             / of_nat (sum_list (map (\<lambda>m. roundsWon m + roundsLost m) [tenRounds]))\<bar>
        \<le> 1 / 2 + of_nat (sum_list (map damage [tenRounds]))
             / of_nat (sum_list (map (\<lambda>m. roundsWon m + roundsLost m) [tenRounds])) / 2 ^ 53"
    by blast
  from ten h have e2: "\<exists>n. killsPerRound (calculateUserStats [tenRounds]) = parseFloat (Decimal n 2) \<and>
        \<bar>of_int n / 100 - (of_nat (sum_list (map kills [tenRounds])) :: rat)
             / of_nat (sum_list (map (\<lambda>m. roundsWon m + roundsLost m) [tenRounds]))\<bar>
        \<le> 1 / 200 + of_nat (sum_list (map kills [tenRounds]))
             / of_nat (sum_list (map (\<lambda>m. roundsWon m + roundsLost m) [tenRounds])) / 2 ^ 53"
    by blast
  from z o h d k e1 e2 show ?thesis by blast
qed

section \<open>The win percentage (C6)\<close>

text \<open>
  C6. In the branch for a non-empty record set, \<open>winPercentage\<close> is
  \<open>(wins / totalGames) * 100\<close> rounded by \<open>toFixed(1)\<close>, with no guard on the divisor, and
  the division is safe: \<open>totalGames\<close> is the number of records and greater than \<open>0\<close>,
  so the quotient is the ordinary rounded quotient, never a division by zero, and
  \<open>winPercentage\<close> is a finite number.
\<close>

theorem winPercentage_division_safe:
  assumes "ms \<noteq> []"
  shows "totalGames (calculateUserStats ms) = num (length ms) \<and>
         jsgt (totalGames (calculateUserStats ms)) (Fin 0) \<and>
         winPercentage (calculateUserStats ms) =
           parseFloat (toFixed (jsmul (jsdiv (wins (calculateUserStats ms))
                                             (totalGames (calculateUserStats ms))) (Fin 100)) 1) \<and>
         jsdiv (wins (calculateUserStats ms)) (totalGames (calculateUserStats ms)) =
           fl (of_nat (min (winCount ms) (2 ^ 53)) / of_nat (length ms)) \<and>
         isFinite (winPercentage (calculateUserStats ms))"
proof -
  define w :: rat where "w = of_nat (min (winCount ms) (2 ^ 53))"
  define g :: rat where "g = of_nat (length ms)"
  have g1: "1 \<le> g" using assms by (simp add: g_def Suc_le_eq)
  have w0: "0 \<le> w" by (simp add: w_def)
  have "min (winCount ms) (2 ^ 53) \<le> (2 ^ 53 :: nat)" by simp
  then have "(of_nat (min (winCount ms) (2 ^ 53)) :: rat) \<le> of_nat (2 ^ 53)"
    by (simp only: of_nat_le_iff)
  then have w53: "w \<le> 2 ^ 53" by (simp add: w_def)
  have W: "wins (calculateUserStats ms) = Fin w"
    using assms by (simp add: calculateUserStats_def Let_def accWins_saturating num_def w_def)
  have G: "totalGames (calculateUserStats ms) = Fin g"
    using assms by (simp add: calculateUserStats_def Let_def num_def g_def)
  have wp: "winPercentage (calculateUserStats ms) =
      parseFloat (toFixed (jsmul (jsdiv (wins (calculateUserStats ms))
                                        (totalGames (calculateUserStats ms))) (Fin 100)) 1)"
    using assms by (simp add: calculateUserStats_def Let_def)
  have dv: "jsdiv (Fin w) (Fin g) = fl (w / g)" using g1 by simp
  have "w * 1 \<le> w * g" using g1 w0 by (rule mult_left_mono)
  then have "w / g \<le> w" using g1 by (simp add: field_simps)
  then have q: "0 \<le> w / g" "w / g < 2 ^ 1023" using w0 g1 w53 by simp_all
  then obtain x where x: "fl (w / g) = Fin x" "0 \<le> x" "x \<le> 2 * (w / g)"
    using fl_crude by blast
  have "x \<le> 2 * 2 ^ 53" using x(3) \<open>w / g \<le> w\<close> w53 by linarith
  then have "0 \<le> x * 100" "x * 100 < 2 ^ 1023" using x(2) by simp_all
  then obtain y where y: "fl (x * 100) = Fin y" "0 \<le> y" using fl_crude by blast
  have jd: "jsdiv (wins (calculateUserStats ms)) (totalGames (calculateUserStats ms)) = Fin x"
    by (simp only: W G dv x(1))
  have jm: "jsmul (Fin x) (Fin 100) = Fin y" using y(1) by simp
  have fin: "isFinite (winPercentage (calculateUserStats ms))"
    unfolding wp jd jm using y(2) by (rule toFixed_finite)
  have "totalGames (calculateUserStats ms) = num (length ms)" by (simp only: G num_def g_def)
  moreover have "jsgt (totalGames (calculateUserStats ms)) (Fin 0)" using g1 by (simp add: G)
  moreover have "jsdiv (wins (calculateUserStats ms)) (totalGames (calculateUserStats ms)) =
      fl (w / g)"
    by (simp only: W G dv)
  then have "jsdiv (wins (calculateUserStats ms)) (totalGames (calculateUserStats ms)) =
      fl (of_nat (min (winCount ms) (2 ^ 53)) / of_nat (length ms))"
    unfolding w_def g_def .
  ultimately show ?thesis using wp fin by blast
qed

text \<open>
  The claim at a single won match: \<open>wins / totalGames\<close> is \<open>1\<close>.
\<close>

theorem winPercentage_division_safe_witness:
  "[fiveKills] \<noteq> [] \<and>
   totalGames (calculateUserStats [fiveKills]) = Fin 1 \<and>
   jsgt (totalGames (calculateUserStats [fiveKills])) (Fin 0) \<and>
   jsdiv (wins (calculateUserStats [fiveKills])) (totalGames (calculateUserStats [fiveKills]))
     = Fin 1 \<and>
   isFinite (winPercentage (calculateUserStats [fiveKills]))"
proof -
  have h: "[fiveKills] \<noteq> []" by simp
  have w: "winCount [fiveKills] = 1" by (simp add: winCount_def fiveKills_def played_def)
  note t = winPercentage_division_safe [OF h]
  have g: "totalGames (calculateUserStats [fiveKills]) = Fin 1" using t by (simp add: num_def)
  have j: "jsgt (totalGames (calculateUserStats [fiveKills])) (Fin 0)" using t by blast
  have "jsdiv (wins (calculateUserStats [fiveKills])) (totalGames (calculateUserStats [fiveKills]))
      = fl (of_nat (min (winCount [fiveKills]) (2 ^ 53)) / of_nat (length [fiveKills]))"
    using t by blast
  also have "\<dots> = Fin 1" by (simp add: w fl_exact)
  finally have dv: "jsdiv (wins (calculateUserStats [fiveKills]))
      (totalGames (calculateUserStats [fiveKills])) = Fin 1" .
  have f: "isFinite (winPercentage (calculateUserStats [fiveKills]))" using t by blast
  from h g j dv f show ?thesis by blast
qed

section \<open>Order independence (C7)\<close>

text \<open>
  C7, as amended. For every record set whose five field sums (kills, deaths, assists,
  damage, rounds) are at most \<open>2^53\<close>, so that the additions of the loop are exact,
  aggregating any permutation of the sequence yields the same summary.
\<close>

theorem order_independent_when_exact:
  assumes "exactTotals ms" and "mset ms' = mset ms"
  shows "calculateUserStats ms' = calculateUserStats ms"
proof (rule calculateUserStats_cong)
  show "length ms' = length ms" using assms(2) by (rule mset_eq_length)
  note s = sum_list_mset_cong [OF assms(2)]
  have w: "winCount ms' = winCount ms"
    unfolding winCount_def using assms(2) by (rule filter_length_mset_cong)
  have e: "sum_list (map kills ms) \<le> 2 ^ 53" "sum_list (map deaths ms) \<le> 2 ^ 53"
    "sum_list (map assists ms) \<le> 2 ^ 53" "sum_list (map damage ms) \<le> 2 ^ 53"
    "sum_list (map (\<lambda>m. roundsWon m + roundsLost m) ms) \<le> 2 ^ 53"
    using assms(1) by (simp_all add: exactTotals_def)
  show "fold accumulate ms' no_totals = fold accumulate ms no_totals"
  proof (rule totals.equality)
    show "accKills (fold accumulate ms' no_totals) = accKills (fold accumulate ms no_totals)"
      using e(1) by (simp add: accKills_exact s)
    show "accDeaths (fold accumulate ms' no_totals) = accDeaths (fold accumulate ms no_totals)"
      using e(2) by (simp add: accDeaths_exact s)
    show "accAssists (fold accumulate ms' no_totals) = accAssists (fold accumulate ms no_totals)"
      using e(3) by (simp add: accAssists_exact s)
    show "accDamage (fold accumulate ms' no_totals) = accDamage (fold accumulate ms no_totals)"
      using e(4) by (simp add: accDamage_exact s)
    show "accRounds (fold accumulate ms' no_totals) = accRounds (fold accumulate ms no_totals)"
      using e(5) by (simp add: accRounds_exact s)
    show "accWins (fold accumulate ms' no_totals) = accWins (fold accumulate ms no_totals)"
      by (simp add: accWins_saturating w)
    show "totals.more (fold accumulate ms' no_totals) = totals.more (fold accumulate ms no_totals)"
      by simp
  qed
qed

text \<open>
  The amended claim at the specification's example and its reversal.
\<close>

theorem order_independent_when_exact_witness:
  "exactTotals specExample \<and> mset (rev specExample) = mset specExample \<and>
   calculateUserStats (rev specExample) = calculateUserStats specExample"
proof -
  have h2: "mset (rev specExample) = mset specExample" by simp
  from order_independent_when_exact [OF exactTotals_specExample h2] exactTotals_specExample h2
  show ?thesis by blast
qed

text \<open>
  C7 as stated, for every record set, fails: with kills \<open>2^53\<close>, \<open>1\<close>, \<open>1\<close> the loop
  returns \<open>2^53\<close> (each \<open>2^53 + 1\<close> rounds back to \<open>2^53\<close>), with kills \<open>1\<close>, \<open>1\<close>, \<open>2^53\<close>
  it returns \<open>2^53 + 2\<close>.
\<close>

theorem order_matters_beyond_two53:
  "mset [oneKill, oneKill, hugeKills] = mset [hugeKills, oneKill, oneKill] \<and>
   calculateUserStats [oneKill, oneKill, hugeKills]
     \<noteq> calculateUserStats [hugeKills, oneKill, oneKill]"
proof
  show "mset [oneKill, oneKill, hugeKills] = mset [hugeKills, oneKill, oneKill]" by simp
  have "totalKills (calculateUserStats [oneKill, oneKill, hugeKills])
      \<noteq> totalKills (calculateUserStats [hugeKills, oneKill, oneKill])"
    by (simp add: kills_huge_first kills_huge_last)
  then show "calculateUserStats [oneKill, oneKill, hugeKills]
      \<noteq> calculateUserStats [hugeKills, oneKill, oneKill]"
    by auto
qed

section \<open>The example of the specification (C8)\<close>

text \<open>
  C8. On the two records \<open>{kills 15, deaths 10, assists 5, damage 3200, roundsWon 7,
  roundsLost 6, Win}\<close> and \<open>{kills 8, deaths 12, assists 3, damage 2400, roundsWon 5,
  roundsLost 7, Loss}\<close> the aggregation returns \<open>totalGames = 2\<close>, \<open>wins = 1\<close>,
  \<open>totalRounds = 25\<close>, \<open>kdRatio = 1.05\<close>, \<open>damagePerRound = 224\<close>, \<open>winPercentage = 50\<close>
  and \<open>killsPerRound = 0.92\<close>, where \<open>1.05\<close> and \<open>0.92\<close> are the doubles that these
  numerals denote.
\<close>

theorem spec_example:
  "totalGames (calculateUserStats [specRecord1 m, specRecord2 m']) = Fin 2 \<and>
   wins (calculateUserStats [specRecord1 m, specRecord2 m']) = Fin 1 \<and>
   totalRounds (calculateUserStats [specRecord1 m, specRecord2 m']) = Fin 25 \<and>
   kdRatio (calculateUserStats [specRecord1 m, specRecord2 m']) = parseFloat (Decimal 105 2) \<and>
   damagePerRound (calculateUserStats [specRecord1 m, specRecord2 m']) = Fin 224 \<and>
   winPercentage (calculateUserStats [specRecord1 m, specRecord2 m']) = Fin 50 \<and>
   killsPerRound (calculateUserStats [specRecord1 m, specRecord2 m']) = parseFloat (Decimal 92 2) \<and>
   parseFloat (Decimal 105 2) = Fin (4728779608739021 / 4503599627370496) \<and>
   parseFloat (Decimal 92 2) = Fin (8286623314361713 / 9007199254740992)"
  by (simp add: calculateUserStats_def Let_def spec_totals num_def fl_exact fl_23_22 fl_21_20
      fl_23_25 fl_half toFixed_kd toFixed_kpr toFixed_dpr toFixed_wp del: toFixed.simps)

section \<open>Failures after the match set has changed (C9)\<close>

text \<open>
  C9. In the add-match and the delete-match route, when the aggregation
  (\<open>Match.find\<close>) or the update of the summary (\<open>User.findByIdAndUpdate\<close>) fails
  on a request that has got that far, that is, one that has changed the match set,
  the answer is the internal error and the stored summary is the one from before
  the request: nothing has been written to it.
\<close>

theorem failure_leaves_summary:
  assumes "fails MatchFind \<or> fails UserFindByIdAndUpdate"
    and "r \<noteq> ResetStats"
    and "matches (snd (handle fails r s)) \<noteq> matches s"
  shows "internalError (fst (handle fails r s)) \<and> stats (snd (handle fails r s)) = stats s"
proof (cases r)
  case (AddMatch i b)
  with assms show ?thesis
    by (auto simp: addMatch_def Let_def split: option.splits if_splits)
next
  case (DeleteMatch i)
  with assms show ?thesis
    by (auto simp: deleteMatch_def Let_def split: option.splits if_splits)
next
  case ResetStats
  with assms show ?thesis by simp
qed

text \<open>
  The claim at the sample request during which \<open>User.findByIdAndUpdate\<close> throws.
\<close>

theorem failure_leaves_summary_witness:
  "(updateFails MatchFind \<or> updateFails UserFindByIdAndUpdate) \<and>
   AddMatch 7 sampleBody \<noteq> ResetStats \<and>
   matches (snd (handle updateFails (AddMatch 7 sampleBody) signedUp)) \<noteq> matches signedUp \<and>
   internalError (fst (handle updateFails (AddMatch 7 sampleBody) signedUp)) \<and>
   stats (snd (handle updateFails (AddMatch 7 sampleBody) signedUp)) = stats signedUp"
proof -
  have h1: "updateFails MatchFind \<or> updateFails UserFindByIdAndUpdate"
    by (simp add: updateFails_def)
  have h2: "AddMatch 7 sampleBody \<noteq> ResetStats" by simp
  have h3: "matches (snd (handle updateFails (AddMatch 7 sampleBody) signedUp)) \<noteq> matches signedUp"
    unfolding addMatch_updateFails by (simp add: staleStore_def signedUp_def)
  from failure_leaves_summary [OF h1 h2 h3] h1 h2 h3 show ?thesis by blast
qed

section \<open>The reset route (C10)\<close>

text \<open>
  C10. The eleven values that the reset route assigns by hand are the summary that the
  aggregation returns for the empty match set, and so is the \<open>stats\<close> object of its
  answer: a reset leaves the account as deleting all its matches and aggregating again
  would.
\<close>

theorem reset_is_empty_aggregation:
  "resetUser user = calculateUserStats [] \<and>
   resetAnswer = calculateUserStats [] \<and>
   resetStats (\<lambda>c. False) \<lparr>matches = ms, stats = Some user\<rparr> =
     (Success (calculateUserStats []), \<lparr>matches = [], stats = Some (calculateUserStats [])\<rparr>)"
  by (simp add: resetUser_eq resetAnswer_def calculateUserStats_Nil resetStats_def)

end
